theory Spec2Isabelle
  imports Main "HOL-Library.Multiset"
begin

section \<open>Python values used by \<^verbatim>\<open>calendar_mcp/calendar.py\<close>\<close>

text \<open>
  Exceptions are values. Only the classes that the code of \<^verbatim>\<open>calendar.py\<close> can meet are
  listed: \<^verbatim>\<open>FileNotFoundError\<close> (raised by \<^verbatim>\<open>auth.get_credentials\<close>), the client
  library's \<^verbatim>\<open>HttpError\<close> with its status and its text, \<^verbatim>\<open>ValueError\<close>
  (\<^verbatim>\<open>datetime.fromisoformat\<close>, \<^verbatim>\<open>datetime.replace\<close>), \<^verbatim>\<open>TypeError\<close> (ordering a naive
  against an aware datetime), \<^verbatim>\<open>KeyError\<close> (\<^verbatim>\<open>b["start"]\<close>), \<^verbatim>\<open>OverflowError\<close>
  (\<^verbatim>\<open>date + timedelta\<close> past \<^verbatim>\<open>date.max\<close>) and any other exception with its text.
\<close>

datatype exn =
    FileNotFoundError string
  | HttpError int string
  | ValueError string
  | TypeError
  | KeyError string
  | OverflowError
  | OtherError string

text \<open>
  A \<^verbatim>\<open>datetime\<close> is its local wall-clock reading together with its \<^verbatim>\<open>tzinfo\<close>.
  Python stores the reading as year, month, day, hour, minute, second, microsecond; the
  calendar date is in bijection with its proleptic Gregorian ordinal
  (\<^verbatim>\<open>date.toordinal\<close>, 1 for 0001-01-01, 3652059 for 9999-12-31), so the reading is kept
  as one number of microseconds: ordinal times one day plus the microsecond of the day.
  Every \<^verbatim>\<open>tzinfo\<close> the module ever attaches is a fixed offset
  (\<^verbatim>\<open>fromisoformat\<close> builds \<^verbatim>\<open>timezone(timedelta)\<close>, and
  \<^verbatim>\<open>datetime.now().astimezone().tzinfo\<close> is a \<^verbatim>\<open>timezone\<close> too), so \<^verbatim>\<open>tzinfo\<close> is
  the UTC offset in microseconds, and \<open>None\<close> for a naive datetime.
\<close>

record datetime =
  local_us :: int
  tzinfo :: "int option"

definition DAY :: int where "DAY = 86400000000"
definition HOUR :: int where "HOUR = 3600000000"
definition MINUTE :: int where "MINUTE = 60000000"
definition SECOND :: int where "SECOND = 1000000"

text \<open>\<^verbatim>\<open>date.max.toordinal()\<close>\<close>
definition MAXORD :: int where "MAXORD = 3652059"

text \<open>\<^verbatim>\<open>d.date().toordinal()\<close> and the microsecond of the day.\<close>
definition date_ord :: "datetime \<Rightarrow> int" where
  "date_ord d = local_us d div DAY"

definition time_us :: "datetime \<Rightarrow> int" where
  "time_us d = local_us d mod DAY"

text \<open>
  The datetime on the day with ordinal \<open>n\<close> at \<open>h:00:00.000000\<close> with the given tzinfo:
  \<^verbatim>\<open>datetime(d.year, d.month, d.day, h, 0, 0, tzinfo=tz)\<close> for the date \<open>d\<close> of ordinal \<open>n\<close>.
\<close>
definition at_hour :: "int \<Rightarrow> int \<Rightarrow> int option \<Rightarrow> datetime" where
  "at_hour n h tz = \<lparr>local_us = n * DAY + h * HOUR, tzinfo = tz\<rparr>"

text \<open>
  The point on the UTC time line that an aware datetime denotes (local reading minus
  offset); for a naive one, the reading itself, which is what Python compares.
\<close>
definition instant :: "datetime \<Rightarrow> int" where
  "instant d = local_us d - (case tzinfo d of None \<Rightarrow> 0 | Some off \<Rightarrow> off)"

definition aware :: "datetime \<Rightarrow> bool" where
  "aware d = (tzinfo d \<noteq> None)"

text \<open>
  Ordering two datetimes: both naive (readings compared), both aware (instants compared),
  or \<^verbatim>\<open>TypeError: can't compare offset-naive and offset-aware datetimes\<close>.
\<close>
definition comparable :: "datetime \<Rightarrow> datetime \<Rightarrow> bool" where
  "comparable a b = (aware a = aware b)"

definition dt_lt :: "datetime \<Rightarrow> datetime \<Rightarrow> exn + bool" where
  "dt_lt a b = (if comparable a b then Inr (instant a < instant b) else Inl TypeError)"

definition dt_le :: "datetime \<Rightarrow> datetime \<Rightarrow> exn + bool" where
  "dt_le a b = (if comparable a b then Inr (instant a \<le> instant b) else Inl TypeError)"

text \<open>
  \<^verbatim>\<open>max(a, b)\<close> and \<^verbatim>\<open>min(a, b)\<close> of two arguments: the first argument is kept unless the
  second is strictly greater (strictly smaller); the object returned carries its own tzinfo.
\<close>
definition py_max :: "datetime \<Rightarrow> datetime \<Rightarrow> exn + datetime" where
  "py_max a b = (case dt_lt a b of Inl e \<Rightarrow> Inl e | Inr gt \<Rightarrow> Inr (if gt then b else a))"

definition py_min :: "datetime \<Rightarrow> datetime \<Rightarrow> exn + datetime" where
  "py_min a b = (case dt_lt b a of Inl e \<Rightarrow> Inl e | Inr lt \<Rightarrow> Inr (if lt then b else a))"

text \<open>
  \<^verbatim>\<open>d.replace(hour=h, minute=0, second=0, microsecond=0)\<close>: same date, same tzinfo;
  \<^verbatim>\<open>ValueError: hour must be in 0..23\<close> otherwise.
\<close>
definition replace_hour :: "datetime \<Rightarrow> int \<Rightarrow> exn + datetime" where
  "replace_hour d h =
     (if 0 \<le> h \<and> h \<le> 23 then Inr (at_hour (date_ord d) h (tzinfo d))
      else Inl (ValueError ''hour must be in 0..23''))"

section \<open>The slot computation of \<^verbatim>\<open>get_free_slots\<close>\<close>

type_synonym slot = "datetime \<times> datetime"

text \<open>
  \<^verbatim>\<open>clip_to_working_hours(gap_start, gap_end)\<close>, lines 226 to 245. The closure reads
  \<^verbatim>\<open>working_hours_start\<close>, \<^verbatim>\<open>working_hours_end\<close> and \<^verbatim>\<open>min_duration_minutes\<close>; they are
  the first three arguments, and \<open>tz0\<close> is \<^verbatim>\<open>gap_start.tzinfo\<close>.

  \<open>clip_body\<close> is one pass through the body of the \<^verbatim>\<open>while\<close> loop (lines 230 to 245):
  it gives the slots yielded in this pass (none or one) and the next value of
  \<^verbatim>\<open>current\<close>, or the exception raised.

  \<^verbatim>\<open>(slot_end - slot_start).total_seconds() >= min_duration_minutes * 60\<close> divides a
  number of microseconds by \<open>10\<^sup>6\<close> in floating point. It is evaluated only after
  \<^verbatim>\<open>slot_start < slot_end\<close>, when the difference is below one day, so below \<open>2\<^sup>5\<^sup>3\<close>
  microseconds: the quotient is then the correctly rounded value of an exact integer
  ratio, and comparing it with the integer \<open>60 * m\<close> agrees with comparing the
  microseconds with \<open>60 * m * 10\<^sup>6\<close>.
\<close>

definition clip_body ::
  "int \<Rightarrow> int \<Rightarrow> int \<Rightarrow> int option \<Rightarrow> datetime \<Rightarrow> datetime \<Rightarrow> exn + (slot list \<times> datetime)" where
  "clip_body working_hours_start working_hours_end min_duration_minutes tz0 gap_end current =
     (case replace_hour current working_hours_start of
        Inl e \<Rightarrow> Inl e
      | Inr work_start \<Rightarrow> (case replace_hour current working_hours_end of
        Inl e \<Rightarrow> Inl e
      | Inr work_end \<Rightarrow> (case py_max current work_start of
        Inl e \<Rightarrow> Inl e
      | Inr slot_start \<Rightarrow> (case py_min gap_end work_end of
        Inl e \<Rightarrow> Inl e
      | Inr slot_end \<Rightarrow> (case dt_lt slot_start slot_end of
        Inl e \<Rightarrow> Inl e
      | Inr nonempty \<Rightarrow>
          if date_ord current + 1 > MAXORD then Inl OverflowError
          else Inr (if nonempty \<and> instant slot_end - instant slot_start
                                    \<ge> min_duration_minutes * 60 * SECOND
                    then [(slot_start, slot_end)] else [],
                    at_hour (date_ord current + 1) working_hours_start tz0))))))"

text \<open>
  The loop itself, with \<^verbatim>\<open>current\<close> as its last argument. The generator's yields are
  the list returned; an exception raised in any pass is the result.
\<close>

function clip_loop ::
  "int \<Rightarrow> int \<Rightarrow> int \<Rightarrow> int option \<Rightarrow> datetime \<Rightarrow> datetime \<Rightarrow> exn + slot list" where
  "clip_loop working_hours_start working_hours_end min_duration_minutes tz0 gap_end current =
     (case dt_lt current gap_end of
        Inl e \<Rightarrow> Inl e
      | Inr go \<Rightarrow>
          if \<not> go then Inr []
          else (case clip_body working_hours_start working_hours_end min_duration_minutes
                       tz0 gap_end current of
            Inl e \<Rightarrow> Inl e
          | Inr (yielded, next_current) \<Rightarrow>
              (case clip_loop working_hours_start working_hours_end min_duration_minutes
                      tz0 gap_end next_current of
                 Inl e \<Rightarrow> Inl e
               | Inr later \<Rightarrow> Inr (yielded @ later))))"
  by pat_completeness auto

lemma date_ord_at_hour: "0 \<le> h \<Longrightarrow> h \<le> 23 \<Longrightarrow> date_ord (at_hour n h tz) = n"
proof -
  assume h: "0 \<le> h" "h \<le> 23"
  have "(n * 86400000000 + h * 3600000000) div 86400000000 = (n::int)"
    using h by (simp add: div_pos_pos_trivial)
  then show ?thesis by (simp add: date_ord_def at_hour_def DAY_def HOUR_def)
qed

lemma clip_body_next:
  assumes "clip_body ws we m tz0 ge cur = Inr (ys, nxt)"
  shows "nxt = at_hour (date_ord cur + 1) ws tz0 \<and> date_ord nxt = date_ord cur + 1
    \<and> date_ord cur + 1 \<le> MAXORD \<and> 0 \<le> ws \<and> ws \<le> 23 \<and> 0 \<le> we \<and> we \<le> 23"
  using assms
  by (auto simp: clip_body_def replace_hour_def date_ord_at_hour
      split: sum.splits if_splits)

termination clip_loop
proof (relation "measure (\<lambda>(ws, we, m, tz0, ge, cur). nat (MAXORD + 1 - date_ord cur))")
  show "wf (measure (\<lambda>(ws, we, m, tz0, ge, cur). nat (MAXORD + 1 - date_ord cur)))"
    by simp
next
  fix ws we m :: int and tz0 :: "int option" and ge cur nxt :: datetime
    and body :: "slot list \<times> datetime" and ys :: "slot list"
  assume "clip_body ws we m tz0 ge cur = Inr body" and "(ys, nxt) = body"
  then have "clip_body ws we m tz0 ge cur = Inr (ys, nxt)" by simp
  from clip_body_next [OF this]
  have "date_ord nxt = date_ord cur + 1" and "date_ord cur + 1 \<le> MAXORD"
    by blast+
  then show "((ws, we, m, tz0, ge, nxt), (ws, we, m, tz0, ge, cur))
      \<in> measure (\<lambda>(ws, we, m, tz0, ge, cur). nat (MAXORD + 1 - date_ord cur))"
    by simp
qed

declare clip_loop.simps [simp del]

text \<open>
  The same loop with no termination argument built in: a run that never leaves the loop
  is the value \<open>None\<close>.
\<close>

partial_function (option) clip_while ::
  "int \<Rightarrow> int \<Rightarrow> int \<Rightarrow> int option \<Rightarrow> datetime \<Rightarrow> datetime \<Rightarrow> (exn + slot list) option" where
  "clip_while working_hours_start working_hours_end min_duration_minutes tz0 gap_end current =
     (case dt_lt current gap_end of
        Inl e \<Rightarrow> Some (Inl e)
      | Inr go \<Rightarrow>
          if \<not> go then Some (Inr [])
          else (case clip_body working_hours_start working_hours_end min_duration_minutes
                       tz0 gap_end current of
            Inl e \<Rightarrow> Some (Inl e)
          | Inr (yielded, next_current) \<Rightarrow>
              Option.bind
                (clip_while working_hours_start working_hours_end min_duration_minutes
                      tz0 gap_end next_current)
                (\<lambda>r. Some (case r of Inl e \<Rightarrow> Inl e | Inr later \<Rightarrow> Inr (yielded @ later)))))"

definition clip_to_working_hours ::
  "int \<Rightarrow> int \<Rightarrow> int \<Rightarrow> datetime \<Rightarrow> datetime \<Rightarrow> exn + slot list" where
  "clip_to_working_hours working_hours_start working_hours_end min_duration_minutes
       gap_start gap_end =
     clip_loop working_hours_start working_hours_end min_duration_minutes
       (tzinfo gap_start) gap_end gap_start"

text \<open>
  \<^verbatim>\<open>busy_ranges.sort(key=lambda x: x[0])\<close>, line 223. The sort is stable and orders the
  keys with \<^verbatim>\<open><\<close>. With fewer than two elements nothing is compared. Otherwise a
  comparison sort links all elements through its comparisons, so it meets a naive key
  against an aware one, and raises \<^verbatim>\<open>TypeError\<close>, exactly when both kinds are present.
\<close>

definition sort_busy :: "slot list \<Rightarrow> exn + slot list" where
  "sort_busy busy_ranges =
     (if list_all (\<lambda>x. aware (fst x)) busy_ranges \<or> list_all (\<lambda>x. \<not> aware (fst x)) busy_ranges
      then Inr (sort_key (\<lambda>x. instant (fst x)) busy_ranges)
      else Inl TypeError)"

text \<open>
  The \<^verbatim>\<open>for bs, be in busy_ranges\<close> loop, lines 249 to 257, over the rest of the sorted
  list: the slots appended to \<^verbatim>\<open>free_slots\<close> and the value of \<^verbatim>\<open>current\<close> when the loop
  is left (by exhaustion or by \<^verbatim>\<open>break\<close>).
\<close>

fun sweep ::
  "int \<Rightarrow> int \<Rightarrow> int \<Rightarrow> datetime \<Rightarrow> datetime \<Rightarrow> slot list \<Rightarrow> exn + (slot list \<times> datetime)" where
  "sweep whs whe mdm end_dt current [] = Inr ([], current)"
| "sweep whs whe mdm end_dt current ((bs, be) # rest) =
     (case dt_le be current of
        Inl e \<Rightarrow> Inl e
      | Inr consumed \<Rightarrow>
          if consumed then sweep whs whe mdm end_dt current rest
          else (case dt_lt current bs of
            Inl e \<Rightarrow> Inl e
          | Inr gap \<Rightarrow>
            (case (if gap
                   then (case py_min bs end_dt of
                           Inl e \<Rightarrow> Inl e
                         | Inr gap_end \<Rightarrow> clip_to_working_hours whs whe mdm current gap_end)
                   else Inr []) of
               Inl e \<Rightarrow> Inl e
             | Inr slots \<Rightarrow> (case py_max current be of
               Inl e \<Rightarrow> Inl e
             | Inr current' \<Rightarrow> (case dt_le end_dt current' of
               Inl e \<Rightarrow> Inl e
             | Inr stop \<Rightarrow>
                 if stop then Inr (slots, current')
                 else (case sweep whs whe mdm end_dt current' rest of
                         Inl e \<Rightarrow> Inl e
                       | Inr (later, c) \<Rightarrow> Inr (slots @ later, c)))))))"

text \<open>
  Lines 247 to 260: the sweep over the sorted list from a given value of \<^verbatim>\<open>current\<close>,
  followed by the trailing gap. The value is the list \<^verbatim>\<open>free_slots\<close>, or the exception
  that leaves the function.
\<close>

definition free_slots_from ::
  "int \<Rightarrow> int \<Rightarrow> int \<Rightarrow> datetime \<Rightarrow> datetime \<Rightarrow> slot list \<Rightarrow> exn + slot list" where
  "free_slots_from whs whe mdm end_dt current sorted_ranges =
     (case sweep whs whe mdm end_dt current sorted_ranges of
        Inl e \<Rightarrow> Inl e
      | Inr (slots, current') \<Rightarrow> (case dt_lt current' end_dt of
        Inl e \<Rightarrow> Inl e
      | Inr trailing \<Rightarrow>
          if trailing
          then (case clip_to_working_hours whs whe mdm current' end_dt of
                  Inl e \<Rightarrow> Inl e
                | Inr later \<Rightarrow> Inr (slots @ later))
          else Inr slots))"

text \<open>Lines 223 to 260: the sort, then the sweep from \<^verbatim>\<open>start_dt\<close>.\<close>

definition free_slots_of ::
  "int \<Rightarrow> int \<Rightarrow> int \<Rightarrow> datetime \<Rightarrow> datetime \<Rightarrow> slot list \<Rightarrow> exn + slot list" where
  "free_slots_of whs whe mdm start_dt end_dt busy_ranges =
     (case sort_busy busy_ranges of
        Inl e \<Rightarrow> Inl e
      | Inr sorted_ranges \<Rightarrow> free_slots_from whs whe mdm end_dt start_dt sorted_ranges)"

section \<open>The tool functions\<close>

text \<open>
  \<^verbatim>\<open>str(e)\<close> for the exceptions above; the classes with a text carry it.
\<close>

fun exn_text :: "exn \<Rightarrow> string" where
  "exn_text (FileNotFoundError s) = s"
| "exn_text (HttpError status s) = s"
| "exn_text (ValueError s) = s"
| "exn_text TypeError = ''can't compare offset-naive and offset-aware datetimes''"
| "exn_text (KeyError k) = [CHR 0x27] @ k @ [CHR 0x27]"
| "exn_text OverflowError = ''date value out of range''"
| "exn_text (OtherError s) = s"

text \<open>
  The strings that the tool functions return. Each constructor stands for one template of
  \<^verbatim>\<open>errors.py\<close> or of \<^verbatim>\<open>calendar.py\<close>, with the values formatted into it:
  \<^verbatim>\<open>errors.AUTH_EXPIRED\<close>, \<^verbatim>\<open>errors.QUOTA_EXCEEDED\<close>, \<^verbatim>\<open>errors.NETWORK_FAILURE\<close>,
  \<^verbatim>\<open>errors.unexpected_failure(message)\<close>, \<^verbatim>\<open>errors.event_in_past(start_time)\<close>,
  \<^verbatim>\<open>"No free slots found in the given range."\<close>, the header
  \<^verbatim>\<open>"Free slots ({m}min min, {s}:00-{e}:00):"\<close> followed by one line per slot, and
  \<^verbatim>\<open>"Created event: ..."\<close> with the summary of the event the provider returned.
\<close>

datatype reply =
    AUTH_EXPIRED
  | QUOTA_EXCEEDED
  | NETWORK_FAILURE
  | UNEXPECTED_FAILURE string
  | EVENT_IN_PAST string
  | No_free_slots
  | Free_slots int int int "slot list"
  | Created_event string

record event_body =
  summary :: string
  start :: datetime
  end_ :: datetime
  description :: "string option"
  location :: "string option"

text \<open>
  What the module reads from outside itself:
  \<^item> \<open>get_service\<close>: the outcome of \<^verbatim>\<open>_get_service()\<close> (\<^verbatim>\<open>get_credentials()\<close>, then
    \<^verbatim>\<open>build(...)\<close>);
  \<^item> \<open>settings_timezone\<close>: the outcome of
    \<^verbatim>\<open>service.settings().get(setting="timezone").execute()\<close>, as the \<^verbatim>\<open>"value"\<close> entry of
    the dictionary returned, if it has one;
  \<^item> \<open>local_offset\<close>: the offset of \<^verbatim>\<open>datetime.now().astimezone().tzinfo\<close>;
  \<^item> \<open>now_local_us\<close>: the local reading of the clock;
  \<^item> \<open>fromisoformat\<close>: the standard library's \<^verbatim>\<open>datetime.fromisoformat\<close>;
  \<^item> \<open>freebusy_query\<close>: the outcome of \<^verbatim>\<open>service.freebusy().query(body=body).execute()\<close>
    for \<^verbatim>\<open>timeMin\<close>, \<^verbatim>\<open>timeMax\<close> and the calendar id, as the list
    \<^verbatim>\<open>result["calendars"][calendar_id]["busy"]\<close> (empty when a key is missing);
  \<^item> \<open>events_insert\<close>: the outcome of
    \<^verbatim>\<open>service.events().insert(calendarId=..., body=...).execute()\<close>, as the summary of the
    event returned.
\<close>

record env =
  get_service :: "exn + unit"
  settings_timezone :: "exn + string option"
  local_offset :: int
  now_local_us :: int
  fromisoformat :: "string \<Rightarrow> exn + datetime"
  freebusy_query :: "datetime \<Rightarrow> datetime \<Rightarrow> string \<Rightarrow> exn + (string \<rightharpoonup> string) list"
  events_insert :: "string \<Rightarrow> event_body \<Rightarrow> exn + string"

definition DEFAULT_TIMEZONE :: string where
  "DEFAULT_TIMEZONE = ''UTC''"

text \<open>\<^verbatim>\<open>_get_user_timezone(service)\<close>, lines 21 to 27.\<close>
definition get_user_timezone :: "env \<Rightarrow> string" where
  "get_user_timezone env =
     (case settings_timezone env of
        Inl e \<Rightarrow> DEFAULT_TIMEZONE
      | Inr setting \<Rightarrow> (case setting of None \<Rightarrow> DEFAULT_TIMEZONE | Some v \<Rightarrow> v))"

text \<open>
  \<^verbatim>\<open>str.strip()\<close> and \<^verbatim>\<open>str.endswith("Z")\<close>; whitespace is the ASCII whitespace that
  \<^verbatim>\<open>str.isspace\<close> accepts.
\<close>
definition is_space :: "char \<Rightarrow> bool" where
  "is_space c = (c \<in> set [CHR 0x20, CHR 0x09, CHR 0x0A, CHR 0x0B, CHR 0x0C, CHR 0x0D,
                           CHR 0x1C, CHR 0x1D, CHR 0x1E, CHR 0x1F])"

definition strip :: "string \<Rightarrow> string" where
  "strip s = rev (dropWhile is_space (rev (dropWhile is_space s)))"

text \<open>\<^verbatim>\<open>_parse_iso8601(s)\<close>, lines 30 to 35.\<close>
definition parse_iso8601 :: "env \<Rightarrow> string \<Rightarrow> exn + datetime" where
  "parse_iso8601 env s =
     (let s1 = strip s;
          s2 = (if s1 \<noteq> [] \<and> last s1 = CHR ''Z'' then butlast s1 @ ''+00:00'' else s1)
      in fromisoformat env s2)"

text \<open>
  The idiom \<^verbatim>\<open>if d.tzinfo is None: d = d.replace(tzinfo=tz)\<close> of lines 63, 189 and 191.
\<close>
definition replace_tzinfo_if_naive :: "int option \<Rightarrow> datetime \<Rightarrow> datetime" where
  "replace_tzinfo_if_naive tz d = (if tzinfo d = None then d\<lparr>tzinfo := tz\<rparr> else d)"


text \<open>\<^verbatim>\<open>"quota" in str(e).lower()\<close>\<close>
definition lower :: "string \<Rightarrow> string" where
  "lower s = map (\<lambda>c. if 65 \<le> (of_char c :: nat) \<and> (of_char c :: nat) \<le> 90
                       then char_of ((of_char c :: nat) + 32) else c) s"

definition mentions_quota :: "string \<Rightarrow> bool" where
  "mentions_quota s = list_ex (\<lambda>i. take 5 (drop i (lower s)) = ''quota'') [0..<length s]"

text \<open>
  The handlers shared by the tool functions: \<^verbatim>\<open>except HttpError\<close> (403 with "quota",
  status from 500, anything else), and \<^verbatim>\<open>except Exception\<close>.
\<close>
definition http_reply :: "int \<Rightarrow> string \<Rightarrow> reply" where
  "http_reply status text =
     (if status = 403 \<and> mentions_quota text then QUOTA_EXCEEDED
      else if status \<ge> 500 then NETWORK_FAILURE
      else UNEXPECTED_FAILURE text)"

text \<open>
  Lines 184 to 197 of \<^verbatim>\<open>get_free_slots\<close>: the first \<^verbatim>\<open>try\<close> block. \<open>get_free_slots_bounds\<close>
  is its body (the value of \<^verbatim>\<open>start_dt\<close> and \<^verbatim>\<open>end_dt\<close>, or the exception raised in
  it). The timezone setting is read into \<^verbatim>\<open>tz\<close>, which no later line mentions.
\<close>
definition get_free_slots_bounds :: "env \<Rightarrow> string \<Rightarrow> string \<Rightarrow> exn + (datetime \<times> datetime)" where
  "get_free_slots_bounds env start_date end_date =
     (case get_service env of
        Inl e \<Rightarrow> Inl e
      | Inr service \<Rightarrow>
          let tz = get_user_timezone env in
          (case parse_iso8601 env start_date of
             Inl e \<Rightarrow> Inl e
           | Inr start_parsed \<Rightarrow> (case parse_iso8601 env end_date of
             Inl e \<Rightarrow> Inl e
           | Inr end_parsed \<Rightarrow>
               let start_dt = replace_tzinfo_if_naive (Some (local_offset env)) start_parsed;
                   end_dt = replace_tzinfo_if_naive (tzinfo start_dt) end_parsed
               in Inr (start_dt, end_dt))))"

text \<open>
  Lines 218 to 222: the loop that parses the provider's busy list. \<^verbatim>\<open>b["start"]\<close> and
  \<^verbatim>\<open>b["end"]\<close> are dictionary lookups.
\<close>
fun busy_ranges_of :: "env \<Rightarrow> (string \<rightharpoonup> string) list \<Rightarrow> exn + slot list" where
  "busy_ranges_of env [] = Inr []"
| "busy_ranges_of env (b # busy_list) =
     (case b ''start'' of
        None \<Rightarrow> Inl (KeyError ''start'')
      | Some s \<Rightarrow> (case parse_iso8601 env s of
        Inl e \<Rightarrow> Inl e
      | Inr bs \<Rightarrow> (case b ''end'' of
        None \<Rightarrow> Inl (KeyError ''end'')
      | Some t \<Rightarrow> (case parse_iso8601 env t of
        Inl e \<Rightarrow> Inl e
      | Inr be \<Rightarrow> (case busy_ranges_of env busy_list of
        Inl e \<Rightarrow> Inl e
      | Inr busy_ranges \<Rightarrow> Inr ((bs, be) # busy_ranges))))))"

text \<open>
  \<^verbatim>\<open>get_free_slots\<close>, lines 175 to 267. \<open>Inr\<close> is the string returned, \<open>Inl\<close> an
  exception that leaves the function. The two \<^verbatim>\<open>try\<close> blocks have handlers; lines 217
  to 267 are outside both.
\<close>
definition get_free_slots ::
  "env \<Rightarrow> string \<Rightarrow> string \<Rightarrow> int \<Rightarrow> int \<Rightarrow> int \<Rightarrow> string \<Rightarrow> exn + reply" where
  "get_free_slots env start_date end_date min_duration_minutes working_hours_start
       working_hours_end calendar_id =
     (case get_free_slots_bounds env start_date end_date of
        Inl e \<Rightarrow>
          Inr (case e of FileNotFoundError s \<Rightarrow> AUTH_EXPIRED
                       | _ \<Rightarrow> UNEXPECTED_FAILURE (exn_text e))
      | Inr (start_dt, end_dt) \<Rightarrow>
          (case freebusy_query env start_dt end_dt calendar_id of
             Inl e \<Rightarrow>
               Inr (case e of HttpError status text \<Rightarrow> http_reply status text
                            | _ \<Rightarrow> UNEXPECTED_FAILURE (exn_text e))
           | Inr busy_list \<Rightarrow> (case busy_ranges_of env busy_list of
             Inl e \<Rightarrow> Inl e
           | Inr busy_ranges \<Rightarrow>
               (case free_slots_of working_hours_start working_hours_end min_duration_minutes
                       start_dt end_dt busy_ranges of
                  Inl e \<Rightarrow> Inl e
                | Inr free_slots \<Rightarrow>
                    Inr (if free_slots = [] then No_free_slots
                         else Free_slots min_duration_minutes working_hours_start
                                working_hours_end free_slots)))))"




section \<open>Concrete inputs\<close>

text \<open>
  The ordinal of a calendar date, as \<^verbatim>\<open>datetime._ymd2ord\<close> computes it, to write
  concrete datetimes by their fields.
\<close>

definition is_leap :: "int \<Rightarrow> bool" where
  "is_leap y = (y mod 4 = 0 \<and> (y mod 100 \<noteq> 0 \<or> y mod 400 = 0))"

definition days_before_year :: "int \<Rightarrow> int" where
  "days_before_year y = (y - 1) * 365 + (y - 1) div 4 - (y - 1) div 100 + (y - 1) div 400"

definition days_before_month :: "int \<Rightarrow> int \<Rightarrow> int" where
  "days_before_month y m =
     [0, 31, 59, 90, 120, 151, 181, 212, 243, 273, 304, 334] ! nat (m - 1)
       + (if m > 2 \<and> is_leap y then 1 else 0)"

definition ymd2ord :: "int \<Rightarrow> int \<Rightarrow> int \<Rightarrow> int" where
  "ymd2ord y m d = days_before_year y + days_before_month y m + d"

text \<open>\<^verbatim>\<open>datetime(y, m, d, hh, mm, tzinfo=tz)\<close> for a valid date and time.\<close>
definition mk_datetime :: "int \<Rightarrow> int \<Rightarrow> int \<Rightarrow> int \<Rightarrow> int \<Rightarrow> int option \<Rightarrow> datetime" where
  "mk_datetime y m d hh mm tz =
     \<lparr>local_us = ymd2ord y m d * DAY + hh * HOUR + mm * MINUTE, tzinfo = tz\<rparr>"

text \<open>
  \<^verbatim>\<open>datetime.fromisoformat\<close> on the strings that the examples below use. On each string
  listed the value is the library's; \<^verbatim>\<open>"not-a-timestamp"\<close> and the empty string are
  rejected by the library with \<^verbatim>\<open>ValueError\<close>, and the examples pass no other string.
\<close>
definition example_fromisoformat :: "string \<Rightarrow> exn + datetime" where
  "example_fromisoformat s =
     (if s = ''2026-03-02T09:00:00'' then Inr (mk_datetime 2026 3 2 9 0 None)
      else if s = ''2026-03-02T18:00:00'' then Inr (mk_datetime 2026 3 2 18 0 None)
      else if s = ''2026-03-01T09:00:00+00:00'' then Inr (mk_datetime 2026 3 1 9 0 (Some 0))
      else if s = ''2026-03-02T09:00:00+00:00'' then Inr (mk_datetime 2026 3 2 9 0 (Some 0))
      else if s = ''2026-03-02T12:00:00+00:00'' then Inr (mk_datetime 2026 3 2 12 0 (Some 0))
      else if s = ''2026-03-02T13:00:00+00:00'' then Inr (mk_datetime 2026 3 2 13 0 (Some 0))
      else if s = ''2026-03-02T18:00:00+00:00'' then Inr (mk_datetime 2026 3 2 18 0 (Some 0))
      else Inl (ValueError (''Invalid isoformat string: '' @ s)))"

text \<open>
  An environment in which every collaborator answers: credentials load, the account
  timezone is \<^verbatim>\<open>"UTC"\<close>, the machine's local offset is +08:00, the clock reads
  2026-03-02T10:00 local time, the calendar has no busy interval, and an insert returns
  an event.
\<close>
definition example_env :: env where
  "example_env =
     \<lparr>get_service = Inr (),
      settings_timezone = Inr (Some ''UTC''),
      local_offset = 8 * HOUR,
      now_local_us = ymd2ord 2026 3 2 * DAY + 10 * HOUR,
      fromisoformat = example_fromisoformat,
      freebusy_query = (\<lambda>time_min time_max calendar_id. Inr []),
      events_insert = (\<lambda>calendar_id body. Inr ''ev123'')\<rparr>"

text \<open>
  The same environment, except that the provider reports one busy interval whose start
  is not a timestamp.
\<close>
definition bad_busy_env :: env where
  "bad_busy_env = example_env\<lparr>freebusy_query :=
      (\<lambda>time_min time_max calendar_id.
         Inr [[''start'' \<mapsto> ''not-a-timestamp'', ''end'' \<mapsto> ''2026-03-02T13:00:00+00:00'']])\<rparr>"

text \<open>
  A range over two days, 2026-03-02T09:00 to 2026-03-03T11:00 UTC, and three busy
  intervals of the first day, out of order and overlapping: 15:00 to 16:00, 12:00 to 13:00
  and 12:30 to 14:00.
\<close>

definition example_start :: datetime where
  "example_start = mk_datetime 2026 3 2 9 0 (Some 0)"

definition example_end :: datetime where
  "example_end = mk_datetime 2026 3 3 11 0 (Some 0)"

definition example_busy :: "slot list" where
  "example_busy =
     [(mk_datetime 2026 3 2 15 0 (Some 0), mk_datetime 2026 3 2 16 0 (Some 0)),
      (mk_datetime 2026 3 2 12 0 (Some 0), mk_datetime 2026 3 2 13 0 (Some 0)),
      (mk_datetime 2026 3 2 12 30 (Some 0), mk_datetime 2026 3 2 14 0 (Some 0))]"

definition example_slots :: "slot list" where
  "example_slots =
     [(mk_datetime 2026 3 2 9 0 (Some 0), mk_datetime 2026 3 2 12 0 (Some 0)),
      (mk_datetime 2026 3 2 14 0 (Some 0), mk_datetime 2026 3 2 15 0 (Some 0)),
      (mk_datetime 2026 3 2 16 0 (Some 0), mk_datetime 2026 3 2 18 0 (Some 0)),
      (mk_datetime 2026 3 3 9 0 (Some 0), mk_datetime 2026 3 3 11 0 (Some 0))]"

section \<open>Notions used to state and prove the properties\<close>

text \<open>
  What \<^verbatim>\<open>max\<close> and \<^verbatim>\<open>min\<close> return when both arguments are aware, so that no comparison
  raises.
\<close>

definition pmax :: "datetime \<Rightarrow> datetime \<Rightarrow> datetime" where
  "pmax a b = (if instant a < instant b then b else a)"

definition pmin :: "datetime \<Rightarrow> datetime \<Rightarrow> datetime" where
  "pmin a b = (if instant b < instant a then b else a)"

text \<open>
  What one pass of the clipping loop yields when the hours are valid and the datetimes
  aware: the part of the gap inside the working hours of the day of \<^verbatim>\<open>current\<close>, if it
  is long enough.
\<close>

definition day_slot :: "int \<Rightarrow> int \<Rightarrow> int \<Rightarrow> datetime \<Rightarrow> datetime \<Rightarrow> slot list" where
  "day_slot whs whe mdm gap_end current =
     (let slot_start = pmax current (at_hour (date_ord current) whs (tzinfo current));
          slot_end = pmin gap_end (at_hour (date_ord current) whe (tzinfo current))
      in if instant slot_start < instant slot_end
            \<and> instant slot_end - instant slot_start \<ge> mdm * 60 * SECOND
         then [(slot_start, slot_end)] else [])"

text \<open>
  A list of slots that lies between two instants, each slot nonempty, each starting no
  earlier than the one before it ends.
\<close>

fun in_order_within :: "int \<Rightarrow> int \<Rightarrow> slot list \<Rightarrow> bool" where
  "in_order_within lo hi [] = True"
| "in_order_within lo hi ((s, e) # rest) =
     (aware s \<and> aware e \<and> lo \<le> instant s \<and> instant s < instant e \<and> instant e \<le> hi
      \<and> in_order_within (instant e) hi rest)"

text \<open>
  The slots that the sweep appends for one busy interval starting at \<open>bs\<close> (lines 252 to
  254), and two computations of slots run one after the other.
\<close>

definition gap_slots ::
  "int \<Rightarrow> int \<Rightarrow> int \<Rightarrow> datetime \<Rightarrow> datetime \<Rightarrow> datetime \<Rightarrow> exn + slot list" where
  "gap_slots whs whe mdm end_dt current bs =
     (if instant current < instant bs
      then clip_to_working_hours whs whe mdm current (pmin bs end_dt) else Inr [])"

definition then_slots :: "exn + slot list \<Rightarrow> exn + slot list \<Rightarrow> exn + slot list" where
  "then_slots a b =
     (case a of Inl e \<Rightarrow> Inl e
      | Inr xs \<Rightarrow> (case b of Inl e \<Rightarrow> Inl e | Inr ys \<Rightarrow> Inr (xs @ ys)))"

text \<open>
  The data model's intervals: both ends are instants with a concrete offset, and the
  start is not after the end.
\<close>

definition all_aware :: "slot list \<Rightarrow> bool" where
  "all_aware busy = list_all (\<lambda>b. aware (fst b) \<and> aware (snd b)) busy"

definition intervals :: "slot list \<Rightarrow> bool" where
  "intervals busy =
     list_all (\<lambda>b. aware (fst b) \<and> aware (snd b) \<and> instant (fst b) \<le> instant (snd b)) busy"

text \<open>
  Python's \<^verbatim>\<open>timezone\<close> takes only offsets strictly between minus and plus 24 hours.
  \<open>busy_ok\<close> is \<open>intervals\<close> with such offsets.
\<close>

definition offset_ok :: "datetime \<Rightarrow> bool" where
  "offset_ok d = (case tzinfo d of None \<Rightarrow> False | Some off \<Rightarrow> - DAY < off \<and> off < DAY)"

definition busy_ok :: "slot list \<Rightarrow> bool" where
  "busy_ok busy =
     list_all (\<lambda>b. offset_ok (fst b) \<and> offset_ok (snd b) \<and> instant (fst b) \<le> instant (snd b)) busy"

text \<open>
  The total duration of a list of slots, in microseconds.
\<close>

definition total_duration :: "slot list \<Rightarrow> int" where
  "total_duration slots = sum_list (map (\<lambda>x. instant (snd x) - instant (fst x)) slots)"

text \<open>
  The range intersected with the working hours, day by day. The working-hours window of
  the day with ordinal \<open>n\<close>, read in the offset \<open>off\<close>, runs from the instant
  \<open>n * DAY + whs * HOUR - off\<close> to the instant \<open>n * DAY + whe * HOUR - off\<close>;
  \<open>window_overlap\<close> is the length of its intersection with the range from \<open>lo\<close> to \<open>hi\<close>.
  The days that can meet the range are those from the date of the start to the date on
  which the end falls in the offset of the start (\<open>range_days\<close>); the window of any
  other day does not meet the range (lemma \<open>window_overlap_outside_days\<close> below).
  \<open>working_time\<close> adds up the intersections, \<open>bookable_time\<close> only those of at least
  the minimum duration.
\<close>

definition utcoffset :: "datetime \<Rightarrow> int" where
  "utcoffset d = (case tzinfo d of None \<Rightarrow> 0 | Some off \<Rightarrow> off)"

definition window_overlap :: "int \<Rightarrow> int \<Rightarrow> int \<Rightarrow> int \<Rightarrow> int \<Rightarrow> int \<Rightarrow> int" where
  "window_overlap whs whe off lo hi n =
     max 0 (min hi (n * DAY + whe * HOUR - off) - max lo (n * DAY + whs * HOUR - off))"

definition long_enough :: "int \<Rightarrow> int \<Rightarrow> int" where
  "long_enough mdm w = (if mdm * 60 * SECOND \<le> w then w else 0)"

definition range_days :: "datetime \<Rightarrow> datetime \<Rightarrow> int set" where
  "range_days start_dt end_dt =
     {date_ord start_dt .. (instant end_dt + utcoffset start_dt) div DAY}"

definition working_time :: "int \<Rightarrow> int \<Rightarrow> datetime \<Rightarrow> datetime \<Rightarrow> int" where
  "working_time whs whe start_dt end_dt =
     (\<Sum>n \<in> range_days start_dt end_dt.
        window_overlap whs whe (utcoffset start_dt) (instant start_dt) (instant end_dt) n)"

definition bookable_time :: "int \<Rightarrow> int \<Rightarrow> int \<Rightarrow> datetime \<Rightarrow> datetime \<Rightarrow> int" where
  "bookable_time whs whe mdm start_dt end_dt =
     (\<Sum>n \<in> range_days start_dt end_dt.
        long_enough mdm
          (window_overlap whs whe (utcoffset start_dt) (instant start_dt) (instant end_dt) n))"

text \<open>A range of 45 minutes across the end of the working day: 17:45 to 18:30 UTC.\<close>

definition late_start :: datetime where
  "late_start = mk_datetime 2026 3 2 17 45 (Some 0)"

definition late_end :: datetime where
  "late_end = mk_datetime 2026 3 2 18 30 (Some 0)"

text \<open>
  Busy intervals whose instants all carry one offset \<open>off\<close>, as a provider reports them;
  two intervals that overlap or are adjacent; and their union, from the earlier start to
  the later end, as \<^verbatim>\<open>(min(a[0], b[0]), max(a[1], b[1]))\<close> gives it.
\<close>

definition uniform :: "int \<Rightarrow> slot list \<Rightarrow> bool" where
  "uniform off busy =
     list_all (\<lambda>b. tzinfo (fst b) = Some off \<and> tzinfo (snd b) = Some off
                  \<and> instant (fst b) \<le> instant (snd b)) busy"

definition touching :: "slot \<Rightarrow> slot \<Rightarrow> bool" where
  "touching a b = (instant (fst a) \<le> instant (snd b) \<and> instant (fst b) \<le> instant (snd a))"

definition union_interval :: "slot \<Rightarrow> slot \<Rightarrow> slot" where
  "union_interval a b = (pmin (fst a) (fst b), pmax (snd a) (snd b))"

text \<open>
  Two overlapping busy intervals that end at the same instant, written in different
  offsets: 11:00 UTC to 20:00+08:00, and 10:00 UTC to 12:00 UTC; and a range of one
  working day, 09:00 to 18:00 UTC.
\<close>

definition mixed_a :: slot where
  "mixed_a = (mk_datetime 2026 3 2 11 0 (Some 0), mk_datetime 2026 3 2 20 0 (Some (8 * HOUR)))"

definition mixed_b :: slot where
  "mixed_b = (mk_datetime 2026 3 2 10 0 (Some 0), mk_datetime 2026 3 2 12 0 (Some 0))"

definition day_start :: datetime where
  "day_start = mk_datetime 2026 3 2 9 0 (Some 0)"

definition day_end :: datetime where
  "day_end = mk_datetime 2026 3 2 18 0 (Some 0)"

section \<open>Comparisons, clipping and the sweep on aware datetimes\<close>

text \<open>
  On aware datetimes no comparison raises, and \<^verbatim>\<open>max\<close> and \<^verbatim>\<open>min\<close> are \<open>pmax\<close> and
  \<open>pmin\<close>. With valid hours one pass of the clipping loop yields \<open>day_slot\<close> and moves
  to the next day (\<open>clip_body_aware\<close>, \<open>clip_loop_aware\<close>); the slots of the loop lie
  in order inside the gap (\<open>clip_loop_in_order\<close>). The sweep with the trailing gap
  unfolds one busy interval at a time (\<open>free_slots_from_Cons\<close>): the \<^verbatim>\<open>continue\<close> and
  the \<^verbatim>\<open>break\<close> of the source change nothing in the slots, since an interval already
  consumed opens no gap and nothing is left to clip once \<^verbatim>\<open>current\<close> has reached
  \<^verbatim>\<open>end_dt\<close> (\<open>free_slots_from_done\<close>).
\<close>

lemma dt_lt_aware [simp]: "aware a \<Longrightarrow> aware b \<Longrightarrow> dt_lt a b = Inr (instant a < instant b)"
  by (simp add: dt_lt_def comparable_def)

lemma dt_le_aware [simp]: "aware a \<Longrightarrow> aware b \<Longrightarrow> dt_le a b = Inr (instant a \<le> instant b)"
  by (simp add: dt_le_def comparable_def)

lemma py_max_aware [simp]: "aware a \<Longrightarrow> aware b \<Longrightarrow> py_max a b = Inr (pmax a b)"
  by (simp add: py_max_def pmax_def)

lemma py_min_aware [simp]: "aware a \<Longrightarrow> aware b \<Longrightarrow> py_min a b = Inr (pmin a b)"
  by (simp add: py_min_def pmin_def)

lemma aware_pmax [simp]: "aware a \<Longrightarrow> aware b \<Longrightarrow> aware (pmax a b)"
  by (simp add: pmax_def)

lemma aware_pmin [simp]: "aware a \<Longrightarrow> aware b \<Longrightarrow> aware (pmin a b)"
  by (simp add: pmin_def)

lemma instant_pmax [simp]: "instant (pmax a b) = max (instant a) (instant b)"
  by (simp add: pmax_def)

lemma instant_pmin [simp]: "instant (pmin a b) = min (instant a) (instant b)"
  by (simp add: pmin_def)

lemma aware_at_hour [simp]: "aware (at_hour n h tz) = (tz \<noteq> None)"
  by (simp add: aware_def at_hour_def)

lemma tzinfo_at_hour [simp]: "tzinfo (at_hour n h tz) = tz"
  by (simp add: at_hour_def)

lemma instant_at_hour: "instant (at_hour n h (Some off)) = n * DAY + h * HOUR - off"
  by (simp add: instant_def at_hour_def)

lemma aware_tz: "aware d \<longleftrightarrow> (\<exists>off. tzinfo d = Some off)"
  by (auto simp: aware_def)

lemma clip_body_aware:
  assumes "aware current" "aware gap_end" "0 \<le> whs" "whs \<le> 23" "0 \<le> whe" "whe \<le> 23"
  shows "clip_body whs whe mdm tz0 gap_end current =
     (if date_ord current + 1 > MAXORD then Inl OverflowError
      else Inr (day_slot whs whe mdm gap_end current, at_hour (date_ord current + 1) whs tz0))"
proof -
  have tz: "tzinfo current \<noteq> None" using assms(1) by (simp add: aware_def)
  show ?thesis using assms tz
    by (simp add: clip_body_def replace_hour_def day_slot_def Let_def)
qed

lemma clip_loop_aware:
  assumes "aware current" "aware gap_end" "0 \<le> whs" "whs \<le> 23" "0 \<le> whe" "whe \<le> 23"
  shows "clip_loop whs whe mdm tz0 gap_end current =
     (if instant current < instant gap_end
      then if date_ord current + 1 > MAXORD then Inl OverflowError
           else (case clip_loop whs whe mdm tz0 gap_end (at_hour (date_ord current + 1) whs tz0) of
                   Inl e \<Rightarrow> Inl e
                 | Inr later \<Rightarrow> Inr (day_slot whs whe mdm gap_end current @ later))
      else Inr [])"
  using assms
  by (subst clip_loop.simps) (simp add: clip_body_aware)

lemma local_us_split: "local_us d = date_ord d * DAY + time_us d"
  by (simp add: date_ord_def time_us_def)

lemma time_us_bounds: "0 \<le> time_us d" "time_us d < DAY"
  by (simp_all add: time_us_def DAY_def)

lemma instant_Some: "tzinfo d = Some off \<Longrightarrow> instant d = local_us d - off"
  by (simp add: instant_def)

lemma day_slot_props:
  assumes "(s, e) \<in> set (day_slot whs whe mdm gap_end current)"
    and "tzinfo current = Some off" and "aware gap_end"
  shows "aware s \<and> aware e \<and> instant current \<le> instant s \<and> instant s < instant e
     \<and> instant e \<le> instant gap_end \<and> instant e \<le> date_ord current * DAY + whe * HOUR - off"
proof -
  have aw: "aware current" using assms(2) by (simp add: aware_def)
  show ?thesis using assms aw
    by (auto simp: day_slot_def Let_def instant_at_hour split: if_splits)
qed

lemma in_order_within_mono:
  "in_order_within lo hi xs \<Longrightarrow> lo' \<le> lo \<Longrightarrow> hi \<le> hi' \<Longrightarrow> in_order_within lo' hi' xs"
proof (induction xs arbitrary: lo lo')
  case Nil then show ?case by simp
next
  case (Cons x xs)
  obtain s e where x: "x = (s, e)" by (cases x)
  from Cons.prems have "in_order_within (instant e) hi xs" by (simp add: x)
  from Cons.IH [OF this order_refl Cons.prems(3)] Cons.prems show ?case
    by (simp add: x)
qed

lemma clip_loop_in_order:
  assumes "clip_loop whs whe mdm (Some off) gap_end current = Inr slots"
    and "tzinfo current = Some off" and "aware gap_end"
  shows "in_order_within (instant current) (instant gap_end) slots"
  using assms
proof (induction whs whe mdm "Some off" gap_end current arbitrary: slots rule: clip_loop.induct)
  case (1 whs whe mdm gap_end current)
  have aw: "aware current" using "1.prems"(2) by (simp add: aware_def)
  show ?case
  proof (cases "instant current < instant gap_end")
    case False
    with "1.prems" aw show ?thesis
      by (subst (asm) clip_loop.simps) auto
  next
    case True
    from "1.prems"(1) True aw "1.prems"(3)
    obtain ys nxt later where body: "clip_body whs whe mdm (Some off) gap_end current = Inr (ys, nxt)"
      and later: "clip_loop whs whe mdm (Some off) gap_end nxt = Inr later"
      and slots: "slots = ys @ later"
      by (subst (asm) clip_loop.simps) (auto split: sum.splits)
    from clip_body_next [OF body]
    have nxt: "nxt = at_hour (date_ord current + 1) whs (Some off)"
      and hrs: "0 \<le> whs" "whs \<le> 23" "0 \<le> whe" "whe \<le> 23" by auto
    from body aw "1.prems"(3) hrs have ys: "ys = day_slot whs whe mdm gap_end current"
      by (simp add: clip_body_aware split: if_splits)
    have go: "dt_lt current gap_end = Inr True"
      using True aw "1.prems"(3) by simp
    have tn: "tzinfo nxt = Some off" by (simp add: nxt)
    have IH: "in_order_within (instant nxt) (instant gap_end) later"
      by (rule "1.hyps" [OF go _ body refl later tn "1.prems"(3)]) simp
    have inxt: "instant nxt = (date_ord current + 1) * DAY + whs * HOUR - off"
      by (simp add: nxt instant_at_hour)
    show ?thesis
    proof (cases ys)
      case Nil
      have "instant current \<le> instant nxt"
        using local_us_split [of current] time_us_bounds [of current] hrs "1.prems"(2)
        by (simp add: inxt instant_Some HOUR_def DAY_def algebra_simps)
      with IH Nil slots show ?thesis
        by (auto intro: in_order_within_mono)
    next
      case (Cons y ys')
      then obtain s e where y: "ys = [(s, e)]"
        using ys by (cases y) (auto simp: day_slot_def Let_def split: if_splits)
      then have "(s, e) \<in> set (day_slot whs whe mdm gap_end current)" using ys by simp
      from day_slot_props [OF this "1.prems"(2,3)]
      have p: "aware s" "aware e" "instant current \<le> instant s" "instant s < instant e"
        "instant e \<le> instant gap_end" "instant e \<le> date_ord current * DAY + whe * HOUR - off"
        by auto
      have "instant e \<le> instant nxt"
        using p(6) hrs by (simp add: inxt HOUR_def DAY_def algebra_simps)
      with IH have "in_order_within (instant e) (instant gap_end) later"
        by (auto intro: in_order_within_mono)
      with p y slots show ?thesis by simp
    qed
  qed
qed

lemma all_aware_Cons [simp]: "all_aware ((s, e) # L) = (aware s \<and> aware e \<and> all_aware L)"
  by (simp add: all_aware_def)

lemma all_aware_Nil [simp]: "all_aware []"
  by (simp add: all_aware_def)

lemma then_slots_simps [simp]:
  "then_slots (Inl e) b = Inl e"
  "then_slots (Inr []) b = b"
  "then_slots (Inr xs) (Inr ys) = Inr (xs @ ys)"
  "then_slots (Inr xs) (Inl e) = Inl e"
  by (auto simp: then_slots_def split: sum.splits)

lemma then_slots_Nil_right [simp]: "then_slots a (Inr []) = a"
  by (auto simp: then_slots_def split: sum.splits)

lemma then_slots_assoc: "then_slots (then_slots a b) c = then_slots a (then_slots b c)"
  by (auto simp: then_slots_def split: sum.splits)

lemma clip_empty:
  "aware current \<Longrightarrow> aware gap_end \<Longrightarrow> instant gap_end \<le> instant current \<Longrightarrow>
   clip_to_working_hours whs whe mdm current gap_end = Inr []"
  by (simp add: clip_to_working_hours_def clip_loop.simps)

lemma sweep_done:
  assumes "aware current" "aware end_dt" "all_aware L" "instant end_dt \<le> instant current"
  shows "\<exists>c. sweep whs whe mdm end_dt current L = Inr ([], c) \<and> aware c
            \<and> instant end_dt \<le> instant c"
  using assms
proof (induction L arbitrary: current)
  case Nil
  then show ?case by simp
next
  case (Cons b L)
  obtain s e where b: "b = (s, e)" by (cases b)
  from Cons.prems b have aw: "aware s" "aware e" "all_aware L" by simp_all
  show ?case
  proof (cases "instant e \<le> instant current")
    case True
    with Cons.IH [OF Cons.prems(1,2) aw(3) Cons.prems(4)] Cons.prems aw show ?thesis
      by (simp add: b)
  next
    case False
    have "instant end_dt \<le> instant (pmax current e)" using Cons.prems(4) by simp
    with False Cons.prems aw show ?thesis
      by (simp add: b clip_empty)
  qed
qed

lemma free_slots_from_done:
  assumes "aware current" "aware end_dt" "all_aware L" "instant end_dt \<le> instant current"
  shows "free_slots_from whs whe mdm end_dt current L = Inr []"
proof -
  from sweep_done [OF assms] obtain c where
    "sweep whs whe mdm end_dt current L = Inr ([], c)" "aware c" "instant end_dt \<le> instant c"
    by blast
  with assms(2) show ?thesis by (simp add: free_slots_from_def)
qed

lemma free_slots_from_Nil:
  assumes "aware current" "aware end_dt"
  shows "free_slots_from whs whe mdm end_dt current [] =
     (if instant current < instant end_dt
      then clip_to_working_hours whs whe mdm current end_dt else Inr [])"
  using assms by (auto simp: free_slots_from_def split: sum.splits)

lemma free_slots_from_Cons:
  assumes "aware current" "aware end_dt" "aware s" "aware e" "all_aware L"
    and "instant s \<le> instant e"
  shows "free_slots_from whs whe mdm end_dt current ((s, e) # L) =
     then_slots (gap_slots whs whe mdm end_dt current s)
       (free_slots_from whs whe mdm end_dt (pmax current e) L)"
proof (cases "instant e \<le> instant current")
  case True
  then have "pmax current e = current" by (simp add: pmax_def)
  moreover have "\<not> instant current < instant s" using True assms(6) by simp
  ultimately show ?thesis using True assms
    by (simp add: free_slots_from_def gap_slots_def)
next
  case False
  then have pm: "pmax current e = e" by (simp add: pmax_def)
  show ?thesis
  proof (cases "instant end_dt \<le> instant e")
    case True
    have "free_slots_from whs whe mdm end_dt e L = Inr []"
      by (rule free_slots_from_done [OF assms(4,2,5) True])
    with True False pm assms show ?thesis
      by (auto simp: free_slots_from_def gap_slots_def split: sum.splits)
  next
    case F2: False
    with False pm assms show ?thesis
      by (auto simp: free_slots_from_def gap_slots_def then_slots_def split: sum.splits)
  qed
qed

lemma intervals_Cons [simp]:
  "intervals ((s, e) # L) = (aware s \<and> aware e \<and> instant s \<le> instant e \<and> intervals L)"
  by (simp add: intervals_def)

lemma intervals_all_aware: "intervals L \<Longrightarrow> all_aware L"
  by (simp add: intervals_def all_aware_def list_all_iff)

lemma in_order_within_append:
  "in_order_within lo mid xs \<Longrightarrow> in_order_within mid' hi ys \<Longrightarrow> mid \<le> mid' \<Longrightarrow>
   lo \<le> mid' \<Longrightarrow> mid \<le> hi \<Longrightarrow> in_order_within lo hi (xs @ ys)"
proof (induction xs arbitrary: lo)
  case Nil
  then show ?case by (auto intro: in_order_within_mono)
next
  case (Cons x xs)
  obtain s e where x: "x = (s, e)" by (cases x)
  from Cons.prems have p: "aware s" "aware e" "lo \<le> instant s" "instant s < instant e"
    "instant e \<le> mid" "in_order_within (instant e) mid xs" by (simp_all add: x)
  have "in_order_within (instant e) hi (xs @ ys)"
    by (rule Cons.IH [OF p(6) Cons.prems(2,3)]) (use p Cons.prems in auto)
  with p Cons.prems show ?case by (simp add: x)
qed

lemma in_order_within_member:
  "in_order_within lo hi xs \<Longrightarrow> (s, e) \<in> set xs \<Longrightarrow>
   aware s \<and> aware e \<and> lo \<le> instant s \<and> instant s < instant e \<and> instant e \<le> hi"
proof (induction xs arbitrary: lo)
  case Nil
  then show ?case by simp
next
  case (Cons x xs)
  obtain s' e' where x: "x = (s', e')" by (cases x)
  show ?case
  proof (cases "(s, e) = (s', e')")
    case True
    with Cons.prems show ?thesis by (simp add: x)
  next
    case False
    with Cons.prems have m: "(s, e) \<in> set xs" and o: "in_order_within (instant e') hi xs"
      and l: "lo \<le> instant s'" "instant s' < instant e'"
      by (auto simp: x)
    from Cons.IH [OF o m] l show ?thesis by auto
  qed
qed

lemma in_order_within_sorted_wrt:
  "in_order_within lo hi xs \<Longrightarrow>
   sorted_wrt (\<lambda>a b. instant (fst a) < instant (fst b) \<and> instant (snd a) \<le> instant (fst b)) xs"
proof (induction xs arbitrary: lo)
  case Nil
  then show ?case by simp
next
  case (Cons x xs)
  obtain s e where x: "x = (s, e)" by (cases x)
  from Cons.prems have o: "in_order_within (instant e) hi xs" and se: "instant s < instant e"
    by (simp_all add: x)
  have "\<forall>y\<in>set xs. instant e \<le> instant (fst y)"
  proof
    fix y assume "y \<in> set xs"
    then have "(fst y, snd y) \<in> set xs" by simp
    from in_order_within_member [OF o this] show "instant e \<le> instant (fst y)" by simp
  qed
  with se Cons.IH [OF o] show ?case by (auto simp: x)
qed

lemma gap_slots_in_order:
  assumes "gap_slots whs whe mdm end_dt current bs = Inr xs"
    and "aware current" "aware bs" "aware end_dt"
  shows "in_order_within (instant current) (min (instant bs) (instant end_dt)) xs"
proof (cases "instant current < instant bs")
  case False
  with assms show ?thesis by (simp add: gap_slots_def)
next
  case True
  from assms(2) obtain off where off: "tzinfo current = Some off" by (auto simp: aware_def)
  from True assms(1) off
  have "clip_loop whs whe mdm (Some off) (pmin bs end_dt) current = Inr xs"
    by (simp add: gap_slots_def clip_to_working_hours_def)
  from clip_loop_in_order [OF this off] assms show ?thesis by simp
qed

lemma free_slots_from_in_order:
  assumes "free_slots_from whs whe mdm end_dt current L = Inr slots"
    and "aware current" "aware end_dt" "intervals L"
  shows "in_order_within (instant current) (instant end_dt) slots"
  using assms
proof (induction L arbitrary: current slots)
  case Nil
  from Nil.prems(2) obtain off where off: "tzinfo current = Some off" by (auto simp: aware_def)
  show ?case
  proof (cases "instant current < instant end_dt")
    case True
    with Nil.prems off
    have "clip_loop whs whe mdm (Some off) end_dt current = Inr slots"
      by (simp add: free_slots_from_Nil clip_to_working_hours_def)
    from clip_loop_in_order [OF this off Nil.prems(3)] show ?thesis .
  next
    case False
    with Nil.prems show ?thesis by (simp add: free_slots_from_Nil)
  qed
next
  case (Cons b L)
  obtain s e where b: "b = (s, e)" by (cases b)
  from Cons.prems(4) have w: "aware s" "aware e" "instant s \<le> instant e" "intervals L"
    by (simp_all add: b)
  from Cons.prems(1)
  have "then_slots (gap_slots whs whe mdm end_dt current s)
          (free_slots_from whs whe mdm end_dt (pmax current e) L) = Inr slots"
    using free_slots_from_Cons [OF Cons.prems(2,3) w(1,2) intervals_all_aware [OF w(4)] w(3)]
    by (simp add: b)
  then obtain xs ys where g: "gap_slots whs whe mdm end_dt current s = Inr xs"
    and r: "free_slots_from whs whe mdm end_dt (pmax current e) L = Inr ys"
    and sl: "slots = xs @ ys"
    by (auto simp: then_slots_def split: sum.splits)
  have 1: "in_order_within (instant current) (min (instant s) (instant end_dt)) xs"
    by (rule gap_slots_in_order [OF g Cons.prems(2) w(1) Cons.prems(3)])
  have 2: "in_order_within (instant (pmax current e)) (instant end_dt) ys"
    by (rule Cons.IH [OF r _ Cons.prems(3) w(4)]) (simp add: Cons.prems(2) w(2))
  show ?case unfolding sl
    by (rule in_order_within_append [OF 1 2]) (use w in auto)
qed

lemma sort_busy_intervals:
  assumes "intervals busy"
  shows "sort_busy busy = Inr (sort_key (\<lambda>x. instant (fst x)) busy)"
  using assms by (auto simp: sort_busy_def intervals_def list_all_iff)

lemma intervals_sort_key: "intervals (sort_key f busy) = intervals busy"
  by (simp add: intervals_def list_all_iff)

lemma free_slots_from_avoid:
  assumes "free_slots_from whs whe mdm end_dt current L = Inr slots"
    and "aware current" "aware end_dt" "intervals L"
    and "sorted (map (\<lambda>x. instant (fst x)) L)"
    and "(s, e) \<in> set slots" and "(bs, be) \<in> set L"
  shows "instant e \<le> instant bs \<or> instant be \<le> instant s"
  using assms
proof (induction L arbitrary: current slots)
  case Nil
  then show ?case by simp
next
  case (Cons b L)
  obtain s' e' where b: "b = (s', e')" by (cases b)
  from Cons.prems(4) have w: "aware s'" "aware e'" "instant s' \<le> instant e'" "intervals L"
    by (simp_all add: b)
  from Cons.prems(1)
  have "then_slots (gap_slots whs whe mdm end_dt current s')
          (free_slots_from whs whe mdm end_dt (pmax current e') L) = Inr slots"
    using free_slots_from_Cons [OF Cons.prems(2,3) w(1,2) intervals_all_aware [OF w(4)] w(3)]
    by (simp add: b)
  then obtain xs ys where g: "gap_slots whs whe mdm end_dt current s' = Inr xs"
    and r: "free_slots_from whs whe mdm end_dt (pmax current e') L = Inr ys"
    and sl: "slots = xs @ ys"
    by (auto simp: then_slots_def split: sum.splits)
  have awp: "aware (pmax current e')" by (simp add: Cons.prems(2) w(2))
  have 1: "in_order_within (instant current) (min (instant s') (instant end_dt)) xs"
    by (rule gap_slots_in_order [OF g Cons.prems(2) w(1) Cons.prems(3)])
  have 2: "in_order_within (instant (pmax current e')) (instant end_dt) ys"
    by (rule free_slots_from_in_order [OF r awp Cons.prems(3) w(4)])
  have srt: "sorted (map (\<lambda>x. instant (fst x)) L)" "\<forall>y\<in>set L. instant s' \<le> instant (fst y)"
    using Cons.prems(5) by (auto simp: b)
  have bs_ge: "instant s' \<le> instant bs"
    using Cons.prems(7) srt(2) by (auto simp: b)
  show ?case
  proof (cases "(s, e) \<in> set xs")
    case True
    from in_order_within_member [OF 1 True] have "instant e \<le> instant s'" by simp
    with bs_ge show ?thesis by simp
  next
    case False
    with Cons.prems(6) sl have m: "(s, e) \<in> set ys" by simp
    show ?thesis
    proof (cases "(bs, be) = (s', e')")
      case True
      from in_order_within_member [OF 2 m] have "instant e' \<le> instant s" by simp
      with True show ?thesis by simp
    next
      case False
      with Cons.prems(7) have "(bs, be) \<in> set L" by (auto simp: b)
      from Cons.IH [OF r awp Cons.prems(3) w(4) srt(1) m this] show ?thesis .
    qed
  qed
qed

section \<open>Totality and coverage of the clipping loop\<close>

text \<open>
  The clipping loop raises nothing when the hours are valid and the gap ends before the
  last representable day (\<open>clip_loop_total\<close>), hence neither does the sweep
  (\<open>free_slots_from_total\<close>). The slots of one run of the loop add up to the daily
  intersections that are long enough (\<open>clip_loop_coverage\<close>).
\<close>

lemma offset_ok_aware: "offset_ok d \<Longrightarrow> aware d"
  by (auto simp: offset_ok_def aware_def split: option.splits)

lemma busy_ok_intervals: "busy_ok L \<Longrightarrow> intervals L"
  by (auto simp: busy_ok_def intervals_def list_all_iff offset_ok_aware)

lemma busy_ok_Cons [simp]:
  "busy_ok ((s, e) # L) = (offset_ok s \<and> offset_ok e \<and> instant s \<le> instant e \<and> busy_ok L)"
  by (simp add: busy_ok_def)

lemma busy_ok_sort_key: "busy_ok (sort_key f busy) = busy_ok busy"
  by (simp add: busy_ok_def list_all_iff)

lemma offset_ok_pmax: "offset_ok a \<Longrightarrow> offset_ok b \<Longrightarrow> offset_ok (pmax a b)"
  by (simp add: pmax_def)

lemma day_slot_empty: 
  assumes "whe \<le> whs" "tzinfo current = Some off"
  shows "day_slot whs whe mdm gap_end current = []"
proof -
  have "whe * HOUR \<le> whs * HOUR" using assms(1) by (simp add: HOUR_def)
  then show ?thesis using assms(2)
    by (auto simp: day_slot_def Let_def instant_at_hour)
qed

lemma date_ord_less:
  assumes "tzinfo current = Some off" "instant current < instant gap_end"
    "(instant gap_end + off) div DAY < MAXORD"
  shows "date_ord current + 1 \<le> MAXORD"
proof -
  have "local_us current \<le> instant gap_end + off"
    using assms(1,2) by (simp add: instant_Some)
  then have "local_us current div DAY \<le> (instant gap_end + off) div DAY"
    by (rule zdiv_mono1) (simp add: DAY_def)
  with assms(3) show ?thesis by (simp add: date_ord_def)
qed

lemma clip_loop_total:
  assumes "tzinfo current = Some off" "aware gap_end"
    "0 \<le> whs" "whs \<le> 23" "0 \<le> whe" "whe \<le> 23"
    "(instant gap_end + off) div DAY < MAXORD"
  shows "\<exists>slots. clip_loop whs whe mdm (Some off) gap_end current = Inr slots
           \<and> (whe \<le> whs \<longrightarrow> slots = [])"
  using assms
proof (induction whs whe mdm "Some off" gap_end current rule: clip_loop.induct)
  case (1 whs whe mdm gap_end current)
  have aw: "aware current" using "1.prems"(1) by (simp add: aware_def)
  note hrs = "1.prems"(3-6)
  show ?case
  proof (cases "instant current < instant gap_end")
    case False
    with aw "1.prems"(2) hrs show ?thesis
      by (subst clip_loop_aware) simp_all
  next
    case True
    have d: "date_ord current + 1 \<le> MAXORD"
      by (rule date_ord_less [OF "1.prems"(1) True "1.prems"(7)])
    let ?nxt = "at_hour (date_ord current + 1) whs (Some off)"
    have go: "dt_lt current gap_end = Inr True"
      using True aw "1.prems"(2) by simp
    have body: "clip_body whs whe mdm (Some off) gap_end current
        = Inr (day_slot whs whe mdm gap_end current, ?nxt)"
      using d aw "1.prems"(2) hrs by (simp add: clip_body_aware)
    have "\<exists>slots. clip_loop whs whe mdm (Some off) gap_end ?nxt = Inr slots
           \<and> (whe \<le> whs \<longrightarrow> slots = [])"
      by (rule "1.hyps" [OF go _ body refl _ "1.prems"(2) hrs "1.prems"(7)]) simp_all
    then obtain later where later: "clip_loop whs whe mdm (Some off) gap_end ?nxt = Inr later"
      and e: "whe \<le> whs \<longrightarrow> later = []" by blast
    have "clip_loop whs whe mdm (Some off) gap_end current
        = Inr (day_slot whs whe mdm gap_end current @ later)"
      using True d later aw "1.prems"(2) hrs
      by (subst clip_loop_aware) simp_all
    with e day_slot_empty [OF _ "1.prems"(1)] show ?thesis by auto
  qed
qed

lemma clip_total:
  assumes "offset_ok current" "aware gap_end"
    "0 \<le> whs" "whs \<le> 23" "0 \<le> whe" "whe \<le> 23"
    "instant gap_end \<le> instant end_dt" "instant end_dt + DAY \<le> MAXORD * DAY"
  shows "\<exists>slots. clip_to_working_hours whs whe mdm current gap_end = Inr slots
           \<and> (whe \<le> whs \<longrightarrow> slots = [])"
proof -
  from assms(1) obtain off where off: "tzinfo current = Some off" "off < DAY"
    by (auto simp: offset_ok_def split: option.splits)
  have "instant gap_end + off < MAXORD * DAY" using assms(7,8) off(2) by simp
  then have "(instant gap_end + off) div DAY < MAXORD"
    by (simp add: DAY_def div_less_iff_less_mult)
  from clip_loop_total [OF off(1) assms(2-6) this, of mdm] off(1)
  show ?thesis by (simp add: clip_to_working_hours_def)
qed

lemma free_slots_from_total:
  assumes "offset_ok current" "aware end_dt" "busy_ok L"
    "0 \<le> whs" "whs \<le> 23" "0 \<le> whe" "whe \<le> 23"
    "instant end_dt + DAY \<le> MAXORD * DAY"
  shows "\<exists>slots. free_slots_from whs whe mdm end_dt current L = Inr slots
           \<and> (whe \<le> whs \<longrightarrow> slots = [])"
  using assms(1,3)
proof (induction L arbitrary: current)
  case Nil
  from clip_total [OF Nil(1) assms(2) assms(4-7) order_refl assms(8), of mdm]
  show ?case using Nil(1) assms(2)
    by (auto simp: free_slots_from_Nil offset_ok_aware)
next
  case (Cons b L)
  obtain s e where b: "b = (s, e)" by (cases b)
  from Cons.prems(2) have w: "offset_ok s" "offset_ok e" "instant s \<le> instant e" "busy_ok L"
    by (simp_all add: b)
  have aw: "aware current" "aware s" "aware e"
    using Cons.prems(1) w by (simp_all add: offset_ok_aware)
  have eq: "free_slots_from whs whe mdm end_dt current (b # L) =
     then_slots (gap_slots whs whe mdm end_dt current s)
       (free_slots_from whs whe mdm end_dt (pmax current e) L)"
    unfolding b
    by (rule free_slots_from_Cons
          [OF aw(1) assms(2) aw(2,3) intervals_all_aware [OF busy_ok_intervals [OF w(4)]] w(3)])
  have "\<exists>xs. gap_slots whs whe mdm end_dt current s = Inr xs \<and> (whe \<le> whs \<longrightarrow> xs = [])"
  proof (cases "instant current < instant s")
    case True
    have "aware (pmin s end_dt)" using aw assms(2) by simp
    from clip_total [OF Cons.prems(1) this assms(4-7) _ assms(8), of mdm] True
    show ?thesis by (simp add: gap_slots_def)
  next
    case False
    then show ?thesis by (simp add: gap_slots_def)
  qed
  then obtain xs where xs: "gap_slots whs whe mdm end_dt current s = Inr xs"
    "whe \<le> whs \<longrightarrow> xs = []" by blast
  from Cons.IH [OF offset_ok_pmax [OF Cons.prems(1) w(2)] w(4)]
  obtain ys where ys: "free_slots_from whs whe mdm end_dt (pmax current e) L = Inr ys"
    "whe \<le> whs \<longrightarrow> ys = []" by blast
  from eq xs ys show ?case by simp
qed

lemma total_duration_simps [simp]:
  "total_duration [] = 0"
  "total_duration ((s, e) # xs) = instant e - instant s + total_duration xs"
  "total_duration (xs @ ys) = total_duration xs + total_duration ys"
  by (simp_all add: total_duration_def)

lemma long_enough_0 [simp]: "long_enough mdm 0 = 0"
  by (simp add: long_enough_def)

lemma total_day_slot:
  assumes "tzinfo current = Some off"
  shows "total_duration (day_slot whs whe mdm gap_end current)
     = long_enough mdm (window_overlap whs whe off (instant current) (instant gap_end)
                          (date_ord current))"
  using assms
  by (auto simp: day_slot_def Let_def long_enough_def window_overlap_def instant_at_hour)

lemma window_overlap_empty:
  "hi \<le> lo \<Longrightarrow> window_overlap whs whe off lo hi n = 0"
  by (simp add: window_overlap_def)

lemma window_overlap_later_day:
  assumes "tzinfo current = Some off" "0 \<le> whs" "date_ord current < n"
  shows "window_overlap whs whe off (instant current) hi n
     = window_overlap whs whe off ((date_ord current + 1) * DAY + whs * HOUR - off) hi n"
proof -
  have 1: "instant current < (date_ord current + 1) * DAY - off"
    using local_us_split [of current] time_us_bounds [of current] assms(1)
    by (simp add: instant_Some algebra_simps)
  have "(date_ord current + 1) * DAY \<le> n * DAY"
    using assms(3) by (simp add: DAY_def)
  moreover have "0 \<le> whs * HOUR" using assms(2) by (simp add: HOUR_def)
  ultimately have 2: "(date_ord current + 1) * DAY + whs * HOUR - off \<le> n * DAY + whs * HOUR - off"
    and 3: "(date_ord current + 1) * DAY - off \<le> n * DAY + whs * HOUR - off"
    by simp_all
  from 1 3 have "max (instant current) (n * DAY + whs * HOUR - off) = n * DAY + whs * HOUR - off"
    by simp
  moreover from 2 have "max ((date_ord current + 1) * DAY + whs * HOUR - off)
      (n * DAY + whs * HOUR - off) = n * DAY + whs * HOUR - off"
    by simp
  ultimately show ?thesis by (simp add: window_overlap_def)
qed

lemma clip_loop_coverage:
  assumes "clip_loop whs whe mdm (Some off) gap_end current = Inr slots"
    and "tzinfo current = Some off" and "aware gap_end"
  shows "total_duration slots
     = (\<Sum>n = date_ord current..(instant gap_end + off) div DAY.
          long_enough mdm (window_overlap whs whe off (instant current) (instant gap_end) n))"
  using assms
proof (induction whs whe mdm "Some off" gap_end current arbitrary: slots rule: clip_loop.induct)
  case (1 whs whe mdm gap_end current)
  have aw: "aware current" using "1.prems"(2) by (simp add: aware_def)
  let ?dl = "(instant gap_end + off) div DAY"
  show ?case
  proof (cases "instant current < instant gap_end")
    case False
    then have "\<And>n. window_overlap whs whe off (instant current) (instant gap_end) n = 0"
      by (simp add: window_overlap_empty)
    moreover from False "1.prems" aw have "slots = []"
      by (subst (asm) clip_loop.simps) auto
    ultimately show ?thesis by simp
  next
    case True
    have go: "dt_lt current gap_end = Inr True"
      using True aw "1.prems"(3) by simp
    from "1.prems"(1) go
    obtain ys nxt later where body: "clip_body whs whe mdm (Some off) gap_end current = Inr (ys, nxt)"
      and later: "clip_loop whs whe mdm (Some off) gap_end nxt = Inr later"
      and slots: "slots = ys @ later"
      by (subst (asm) clip_loop.simps) (auto split: sum.splits)
    from clip_body_next [OF body]
    have nxt: "nxt = at_hour (date_ord current + 1) whs (Some off)"
      and dn: "date_ord nxt = date_ord current + 1"
      and hrs: "0 \<le> whs" "whs \<le> 23" "0 \<le> whe" "whe \<le> 23" by auto
    from body aw "1.prems"(3) hrs have ys: "ys = day_slot whs whe mdm gap_end current"
      by (simp add: clip_body_aware split: if_splits)
    have tn: "tzinfo nxt = Some off" by (simp add: nxt)
    have inxt: "instant nxt = (date_ord current + 1) * DAY + whs * HOUR - off"
      by (simp add: nxt instant_at_hour)
    have IH: "total_duration later
       = (\<Sum>n = date_ord nxt..?dl.
            long_enough mdm (window_overlap whs whe off (instant nxt) (instant gap_end) n))"
      by (rule "1.hyps" [OF go _ body refl later tn "1.prems"(3)]) simp
    have "local_us current \<le> instant gap_end + off"
      using "1.prems"(2) True by (simp add: instant_Some)
    then have "local_us current div DAY \<le> ?dl"
      by (rule zdiv_mono1) (simp add: DAY_def)
    then have dle: "date_ord current \<le> ?dl" by (simp add: date_ord_def)
    have split: "{date_ord current..?dl} = insert (date_ord current) {date_ord current + 1..?dl}"
      using dle by auto
    have later_days: "(\<Sum>n = date_ord current + 1..?dl.
            long_enough mdm (window_overlap whs whe off (instant current) (instant gap_end) n))
        = (\<Sum>n = date_ord current + 1..?dl.
            long_enough mdm (window_overlap whs whe off (instant nxt) (instant gap_end) n))"
      by (rule sum.cong)
         (simp_all add: inxt window_overlap_later_day [OF "1.prems"(2) hrs(1)])
    show ?thesis
      by (simp add: slots ys total_day_slot [OF "1.prems"(2)] split later_days IH dn)
  qed
qed

lemma window_overlap_outside_days:
  assumes "0 \<le> whs" "whe \<le> 24" "n \<notin> range_days start_dt end_dt"
  shows "window_overlap whs whe (utcoffset start_dt) (instant start_dt) (instant end_dt) n = 0"
proof -
  let ?off = "utcoffset start_dt"
  have inst: "instant start_dt = local_us start_dt - ?off"
    by (simp add: instant_def utcoffset_def)
  from assms(3) consider "n < date_ord start_dt" | "(instant end_dt + ?off) div DAY < n"
    by (auto simp: range_days_def)
  then show ?thesis
  proof cases
    case 1
    then have "(n + 1) * DAY \<le> date_ord start_dt * DAY" by (simp add: DAY_def)
    moreover have "whe * HOUR \<le> DAY" using assms(2) by (simp add: HOUR_def DAY_def)
    moreover have "date_ord start_dt * DAY \<le> local_us start_dt"
      using local_us_split [of start_dt] time_us_bounds [of start_dt] by simp
    ultimately have "n * DAY + whe * HOUR - ?off \<le> instant start_dt"
      by (simp add: inst algebra_simps)
    then show ?thesis by (simp add: window_overlap_def)
  next
    case 2
    then have "(instant end_dt + ?off) div DAY + 1 \<le> n" by simp
    then have "((instant end_dt + ?off) div DAY + 1) * DAY \<le> n * DAY" by (simp add: DAY_def)
    moreover have "instant end_dt + ?off < ((instant end_dt + ?off) div DAY + 1) * DAY"
      using div_mult_mod_eq [of "instant end_dt + ?off" DAY]
        pos_mod_bound [of DAY "instant end_dt + ?off"]
      by (simp add: DAY_def algebra_simps)
    moreover have "0 \<le> whs * HOUR" using assms(1) by (simp add: HOUR_def)
    ultimately have "instant end_dt \<le> n * DAY + whs * HOUR - ?off" by simp
    then show ?thesis by (simp add: window_overlap_def)
  qed
qed

lemma free_slots_of_Nil:
  assumes "aware start_dt" "aware end_dt"
  shows "free_slots_of whs whe mdm start_dt end_dt []
     = clip_to_working_hours whs whe mdm start_dt end_dt"
  using assms
  by (simp add: free_slots_of_def sort_busy_def free_slots_from_Nil clip_empty)

section \<open>Busy intervals of one offset: order of ties and merging\<close>

text \<open>
  When all busy instants carry one offset, a datetime is determined by its instant
  (\<open>same_offset_eq\<close>). Then two intervals with the same start can be swapped
  (\<open>from_swap\<close>), so the result depends only on the multiset of the sorted list
  (\<open>from_sorted_mset\<close>); and inserting two touching intervals into a sorted list gives
  the same result as inserting their union (\<open>from_insort_merge\<close>).
\<close>

lemma uniform_Cons [simp]:
  "uniform off ((s, e) # L) = (tzinfo s = Some off \<and> tzinfo e = Some off
     \<and> instant s \<le> instant e \<and> uniform off L)"
  by (simp add: uniform_def)

lemma uniform_set: "uniform off L = (\<forall>b\<in>set L. tzinfo (fst b) = Some off
     \<and> tzinfo (snd b) = Some off \<and> instant (fst b) \<le> instant (snd b))"
  by (simp add: uniform_def list_all_iff)

lemma uniform_mset: "mset A = mset B \<Longrightarrow> uniform off A = uniform off B"
  using mset_eq_setD [of A B] by (simp add: uniform_set)

lemma uniform_intervals: "uniform off L \<Longrightarrow> intervals L"
  by (auto simp: uniform_set intervals_def list_all_iff aware_def)

lemma uniform_all_aware: "uniform off L \<Longrightarrow> all_aware L"
  by (rule intervals_all_aware [OF uniform_intervals])

lemma same_offset_eq:
  "tzinfo x = Some off \<Longrightarrow> tzinfo y = Some off \<Longrightarrow> instant x = instant y \<Longrightarrow> x = y"
  by (cases x, cases y) (simp add: instant_def)

lemma pmax_commute:
  assumes "tzinfo e1 = Some off" "tzinfo e2 = Some off"
  shows "pmax (pmax c e1) e2 = pmax (pmax c e2) e1"
proof (cases "instant e1 = instant e2")
  case True
  with assms have "e1 = e2" by (rule same_offset_eq)
  then show ?thesis by simp
next
  case False
  then show ?thesis by (auto simp: pmax_def)
qed

lemma gap_slots_none: "instant s \<le> instant current \<Longrightarrow> gap_slots whs whe mdm end_dt current s = Inr []"
  by (simp add: gap_slots_def)

lemma from_Cons:
  assumes "aware current" "aware end_dt" "uniform off ((s, e) # L)"
  shows "free_slots_from whs whe mdm end_dt current ((s, e) # L) =
     then_slots (gap_slots whs whe mdm end_dt current s)
       (free_slots_from whs whe mdm end_dt (pmax current e) L)"
proof -
  from assms(3) have "aware s" "aware e" "instant s \<le> instant e" "all_aware L"
    by (auto simp: aware_def intro: uniform_all_aware)
  with assms(1,2) show ?thesis by (intro free_slots_from_Cons)
qed

lemma from_Cons_covered:
  assumes "aware current" "aware end_dt" "uniform off ((s, e) # L)" "instant s \<le> instant current"
  shows "free_slots_from whs whe mdm end_dt current ((s, e) # L) =
       free_slots_from whs whe mdm end_dt (pmax current e) L"
  using from_Cons [OF assms(1-3)] assms(4) by (simp add: gap_slots_none)

lemma aware_pmax_uniform: "aware c \<Longrightarrow> tzinfo e = Some off \<Longrightarrow> aware (pmax c e)"
  by (simp add: pmax_def aware_def)

lemma from_swap:
  assumes "aware current" "aware end_dt" "uniform off ((s1, e1) # (s2, e2) # L)"
    and "instant s1 = instant s2"
  shows "free_slots_from whs whe mdm end_dt current ((s1, e1) # (s2, e2) # L)
       = free_slots_from whs whe mdm end_dt current ((s2, e2) # (s1, e1) # L)"
proof -
  from assms(3) have u: "tzinfo s1 = Some off" "tzinfo e1 = Some off" "instant s1 \<le> instant e1"
    "tzinfo s2 = Some off" "tzinfo e2 = Some off" "instant s2 \<le> instant e2" "uniform off L"
    by simp_all
  have s: "s1 = s2" by (rule same_offset_eq [OF u(1,4) assms(4)])
  have a1: "aware (pmax current e1)" "aware (pmax current e2)"
    using assms(1) u by (simp_all add: aware_pmax_uniform)
  have l: "free_slots_from whs whe mdm end_dt current ((s1, e1) # (s2, e2) # L)
      = then_slots (gap_slots whs whe mdm end_dt current s1)
          (free_slots_from whs whe mdm end_dt (pmax (pmax current e1) e2) L)"
    using from_Cons [OF assms(1,2,3), of whs whe mdm]
      from_Cons_covered [OF a1(1) assms(2), of off s2 e2 L whs whe mdm] u assms(4)
    by simp
  have r: "free_slots_from whs whe mdm end_dt current ((s2, e2) # (s1, e1) # L)
      = then_slots (gap_slots whs whe mdm end_dt current s2)
          (free_slots_from whs whe mdm end_dt (pmax (pmax current e2) e1) L)"
    using from_Cons [OF assms(1,2), of off s2 e2 "(s1, e1) # L" whs whe mdm]
      from_Cons_covered [OF a1(2) assms(2), of off s1 e1 L whs whe mdm] u assms(4)
    by simp
  have m: "then_slots (gap_slots whs whe mdm end_dt current s1)
          (free_slots_from whs whe mdm end_dt (pmax (pmax current e1) e2) L)
    = then_slots (gap_slots whs whe mdm end_dt current s2)
          (free_slots_from whs whe mdm end_dt (pmax (pmax current e2) e1) L)"
    by (simp only: s pmax_commute [OF u(2,5)])
  show ?thesis by (simp only: l r m)
qed

lemma pmax_assoc: "pmax (pmax c e1) e2 = pmax c (pmax e1 e2)"
  by (auto simp: pmax_def)

lemma uniform_append_swap:
  "uniform off (B1 @ a # B2) = uniform off (a # B1 @ B2)"
  by (auto simp: uniform_set)

lemma uniform_insort: "uniform off (insort_key f b S) = uniform off (b # S)"
  by (simp add: uniform_set set_insort_key)

lemma from_move_front:
  assumes "aware end_dt"
  shows "aware current \<Longrightarrow> uniform off (B1 @ a # B2) \<Longrightarrow>
     \<forall>b\<in>set B1. instant (fst b) = instant (fst a) \<Longrightarrow>
     free_slots_from whs whe mdm end_dt current (B1 @ a # B2)
       = free_slots_from whs whe mdm end_dt current (a # B1 @ B2)"
proof (induction B1 arbitrary: current)
  case Nil
  then show ?case by simp
next
  case (Cons b B1)
  obtain sb eb where b: "b = (sb, eb)" by (cases b)
  obtain sa ea where a: "a = (sa, ea)" by (cases a)
  have u1: "uniform off ((sb, eb) # B1 @ a # B2)" using Cons.prems(2) by (simp add: b)
  then have tz: "tzinfo eb = Some off" and u2: "uniform off (B1 @ a # B2)" by simp_all
  have aw: "aware (pmax current eb)" by (rule aware_pmax_uniform [OF Cons.prems(1) tz])
  have keys: "\<forall>b\<in>set B1. instant (fst b) = instant (fst a)" "instant sb = instant sa"
    using Cons.prems(3) by (simp_all add: a b)
  have u3: "uniform off ((sb, eb) # (sa, ea) # B1 @ B2)"
    using u1 by (auto simp: uniform_set a)
  have "free_slots_from whs whe mdm end_dt current ((sb, eb) # B1 @ a # B2)
      = then_slots (gap_slots whs whe mdm end_dt current sb)
          (free_slots_from whs whe mdm end_dt (pmax current eb) (B1 @ a # B2))"
    by (rule from_Cons [OF Cons.prems(1) assms u1])
  also have "\<dots> = then_slots (gap_slots whs whe mdm end_dt current sb)
          (free_slots_from whs whe mdm end_dt (pmax current eb) (a # B1 @ B2))"
    by (simp only: Cons.IH [OF aw u2 keys(1)])
  also have "\<dots> = free_slots_from whs whe mdm end_dt current ((sb, eb) # (sa, ea) # B1 @ B2)"
    unfolding a by (rule from_Cons [OF Cons.prems(1) assms u3, symmetric])
  also have "\<dots> = free_slots_from whs whe mdm end_dt current ((sa, ea) # (sb, eb) # B1 @ B2)"
    by (rule from_swap [OF Cons.prems(1) assms u3 keys(2)])
  finally show ?case by (simp add: a b)
qed

lemma from_sorted_mset:
  assumes "aware end_dt"
  shows "sorted (map (\<lambda>x. instant (fst x)) A) \<Longrightarrow> sorted (map (\<lambda>x. instant (fst x)) B) \<Longrightarrow>
     mset A = mset B \<Longrightarrow> uniform off A \<Longrightarrow> aware current \<Longrightarrow>
     free_slots_from whs whe mdm end_dt current A = free_slots_from whs whe mdm end_dt current B"
proof (induction A arbitrary: B current)
  case Nil
  then show ?case by simp
next
  case (Cons a A)
  obtain sa ea where a: "a = (sa, ea)" by (cases a)
  have sets: "set (a # A) = set B" using Cons.prems(3) by (rule mset_eq_setD)
  then have "a \<in> set B" by auto
  then obtain B1 B2 where B: "B = B1 @ a # B2" by (auto dest: split_list)
  have m: "mset A = mset (B1 @ B2)" using Cons.prems(3) by (simp add: B)
  have uB: "uniform off (B1 @ a # B2)"
    using Cons.prems(3,4) uniform_mset [of "a # A" B off] by (simp add: B)
  have sA: "sorted (map (\<lambda>x. instant (fst x)) A)" "\<forall>y\<in>set A. instant (fst a) \<le> instant (fst y)"
    using Cons.prems(1) by simp_all
  have sB: "sorted (map (\<lambda>x. instant (fst x)) (B1 @ B2))"
    "\<forall>x\<in>set B1. instant (fst x) \<le> instant (fst a)"
    using Cons.prems(2) by (auto simp: B sorted_append)
  have keys: "\<forall>b\<in>set B1. instant (fst b) = instant (fst a)"
  proof
    fix b assume bb: "b \<in> set B1"
    then have "b \<in> set (a # A)" using sets by (simp add: B)
    then have "instant (fst a) \<le> instant (fst b)" using sA(2) by auto
    with sB(2) bb show "instant (fst b) = instant (fst a)" by auto
  qed
  have uA: "uniform off ((sa, ea) # A)" using Cons.prems(4) by (simp add: a)
  then have tz: "tzinfo ea = Some off" and uA': "uniform off A" by simp_all
  have aw: "aware (pmax current ea)" by (rule aware_pmax_uniform [OF Cons.prems(5) tz])
  have uB': "uniform off ((sa, ea) # B1 @ B2)" using uB by (auto simp: uniform_set a)
  have "free_slots_from whs whe mdm end_dt current B
      = free_slots_from whs whe mdm end_dt current (a # B1 @ B2)"
    unfolding B by (rule from_move_front [OF assms Cons.prems(5) uB keys])
  also have "\<dots> = then_slots (gap_slots whs whe mdm end_dt current sa)
          (free_slots_from whs whe mdm end_dt (pmax current ea) (B1 @ B2))"
    unfolding a by (rule from_Cons [OF Cons.prems(5) assms uB'])
  also have "\<dots> = then_slots (gap_slots whs whe mdm end_dt current sa)
          (free_slots_from whs whe mdm end_dt (pmax current ea) A)"
    by (simp only: Cons.IH [OF sA(1) sB(1) m uA' aw])
  also have "\<dots> = free_slots_from whs whe mdm end_dt current (a # A)"
    unfolding a by (rule from_Cons [OF Cons.prems(5) assms uA, symmetric])
  finally show ?case by simp
qed

lemma from_insort_covered:
  assumes "aware end_dt"
  shows "aware current \<Longrightarrow> uniform off ((sb, eb) # S) \<Longrightarrow> instant sb \<le> instant current \<Longrightarrow>
     free_slots_from whs whe mdm end_dt current (insort_key (\<lambda>x. instant (fst x)) (sb, eb) S)
       = free_slots_from whs whe mdm end_dt (pmax current eb) S"
proof (induction S arbitrary: current)
  case Nil
  then show ?case using from_Cons_covered [OF Nil(1) assms Nil(2,3)] by simp
next
  case (Cons x S)
  obtain sx ex where x: "x = (sx, ex)" by (cases x)
  from Cons.prems(2) have u: "tzinfo sb = Some off" "tzinfo eb = Some off"
    "instant sb \<le> instant eb" "tzinfo sx = Some off" "tzinfo ex = Some off"
    "instant sx \<le> instant ex" "uniform off S"
    by (simp_all add: x)
  show ?case
  proof (cases "instant sb \<le> instant sx")
    case True
    then have "insort_key (\<lambda>x. instant (fst x)) (sb, eb) (x # S) = (sb, eb) # x # S"
      by (simp add: x)
    with from_Cons_covered [OF Cons.prems(1) assms Cons.prems(2,3)] show ?thesis by simp
  next
    case False
    then have ins: "insort_key (\<lambda>x. instant (fst x)) (sb, eb) ((sx, ex) # S)
        = (sx, ex) # insort_key (\<lambda>x. instant (fst x)) (sb, eb) S"
      by simp
    have u1: "uniform off ((sx, ex) # insort_key (\<lambda>x. instant (fst x)) (sb, eb) S)"
      using u by (simp add: uniform_insort)
    have lx: "instant sx \<le> instant current" using False Cons.prems(3) by simp
    have aw1: "aware (pmax current ex)" by (rule aware_pmax_uniform [OF Cons.prems(1) u(5)])
    have aw2: "aware (pmax current eb)" by (rule aware_pmax_uniform [OF Cons.prems(1) u(2)])
    have u2: "uniform off ((sb, eb) # S)" using u by simp
    have u3: "uniform off ((sx, ex) # S)" using u by simp
    have "free_slots_from whs whe mdm end_dt current ((sx, ex) # insort_key (\<lambda>x. instant (fst x)) (sb, eb) S)
        = free_slots_from whs whe mdm end_dt (pmax current ex) (insort_key (\<lambda>x. instant (fst x)) (sb, eb) S)"
      by (rule from_Cons_covered [OF Cons.prems(1) assms u1 lx])
    also have "\<dots> = free_slots_from whs whe mdm end_dt (pmax (pmax current ex) eb) S"
      by (rule Cons.IH [OF aw1 u2]) (use Cons.prems(3) in simp)
    also have "\<dots> = free_slots_from whs whe mdm end_dt (pmax (pmax current eb) ex) S"
      by (simp only: pmax_commute [OF u(5,2)])
    also have "\<dots> = free_slots_from whs whe mdm end_dt (pmax current eb) ((sx, ex) # S)"
      by (rule from_Cons_covered [OF aw2 assms u3, symmetric]) (use lx in simp)
    finally show ?thesis by (simp only: x ins)
  qed
qed

lemma pmax_sym:
  assumes "tzinfo e1 = Some off" "tzinfo e2 = Some off"
  shows "pmax e1 e2 = pmax e2 e1"
  using same_offset_eq [OF assms] by (auto simp: pmax_def)

lemma from_insort_merge:
  assumes "aware end_dt"
  shows "aware current \<Longrightarrow> uniform off ((sa, ea) # (sb, eb) # S) \<Longrightarrow>
     instant sa \<le> instant sb \<Longrightarrow> instant sb \<le> instant ea \<Longrightarrow>
     free_slots_from whs whe mdm end_dt current
        (insort_key (\<lambda>x. instant (fst x)) (sa, ea)
           (insort_key (\<lambda>x. instant (fst x)) (sb, eb) S))
       = free_slots_from whs whe mdm end_dt current
           (insort_key (\<lambda>x. instant (fst x)) (sa, pmax ea eb) S)"
proof (induction S arbitrary: current)
  case Nil
  from Nil(2) have u: "tzinfo sa = Some off" "tzinfo ea = Some off" "instant sa \<le> instant ea"
    "tzinfo sb = Some off" "tzinfo eb = Some off" "instant sb \<le> instant eb"
    by simp_all
  have aw: "aware (pmax current ea)" by (rule aware_pmax_uniform [OF Nil(1) u(2)])
  have tzu: "tzinfo (pmax ea eb) = Some off" using u by (simp add: pmax_def)
  have uu: "uniform off [(sa, pmax ea eb)]" using u tzu by (auto simp: uniform_def)
  have ub: "uniform off [(sb, eb)]" using u by (simp add: uniform_def)
  have "free_slots_from whs whe mdm end_dt current [(sa, ea), (sb, eb)]
      = then_slots (gap_slots whs whe mdm end_dt current sa)
          (free_slots_from whs whe mdm end_dt (pmax current ea) [(sb, eb)])"
    by (rule from_Cons [OF Nil(1) assms Nil(2)])
  also have "\<dots> = then_slots (gap_slots whs whe mdm end_dt current sa)
          (free_slots_from whs whe mdm end_dt (pmax (pmax current ea) eb) [])"
    using from_Cons_covered [OF aw assms ub, of whs whe mdm] Nil(4) by simp
  also have "\<dots> = free_slots_from whs whe mdm end_dt current [(sa, pmax ea eb)]"
    using from_Cons [OF Nil(1) assms uu, of whs whe mdm] by (simp add: pmax_assoc)
  finally show ?case using Nil(3) by simp
next
  case (Cons x S)
  obtain sx ex where x: "x = (sx, ex)" by (cases x)
  from Cons.prems(2) have u: "tzinfo sa = Some off" "tzinfo ea = Some off"
    "instant sa \<le> instant ea" "tzinfo sb = Some off" "tzinfo eb = Some off"
    "instant sb \<le> instant eb" "tzinfo sx = Some off" "tzinfo ex = Some off"
    "instant sx \<le> instant ex" "uniform off S"
    by (simp_all add: x)
  have tzu: "tzinfo (pmax ea eb) = Some off" using u by (simp add: pmax_def)
  have iu: "instant sa \<le> instant (pmax ea eb)" using u by simp
  have awa: "aware (pmax current ea)" by (rule aware_pmax_uniform [OF Cons.prems(1) u(2)])
  have awu: "aware (pmax current (pmax ea eb))"
    by (rule aware_pmax_uniform [OF Cons.prems(1) tzu])
  have awx: "aware (pmax current ex)" by (rule aware_pmax_uniform [OF Cons.prems(1) u(8)])
  show ?case
  proof (cases "instant sx < instant sa")
    case True
    have i1: "insort_key (\<lambda>x. instant (fst x)) (sa, ea)
               (insort_key (\<lambda>x. instant (fst x)) (sb, eb) ((sx, ex) # S))
        = (sx, ex) # insort_key (\<lambda>x. instant (fst x)) (sa, ea)
               (insort_key (\<lambda>x. instant (fst x)) (sb, eb) S)"
      using True Cons.prems(3) by simp
    have i2: "insort_key (\<lambda>x. instant (fst x)) (sa, pmax ea eb) ((sx, ex) # S)
        = (sx, ex) # insort_key (\<lambda>x. instant (fst x)) (sa, pmax ea eb) S"
      using True by simp
    have u1: "uniform off ((sx, ex) # insort_key (\<lambda>x. instant (fst x)) (sa, ea)
               (insort_key (\<lambda>x. instant (fst x)) (sb, eb) S))"
      using u by (simp add: uniform_set set_insort_key)
    have u2: "uniform off ((sx, ex) # insort_key (\<lambda>x. instant (fst x)) (sa, pmax ea eb) S)"
      using u tzu iu by (simp add: uniform_set set_insort_key)
    have u3: "uniform off ((sa, ea) # (sb, eb) # S)" using u by simp
    show ?thesis
      unfolding x i1 i2
      by (simp only: from_Cons [OF Cons.prems(1) assms u1] from_Cons [OF Cons.prems(1) assms u2]
            Cons.IH [OF awx u3 Cons.prems(3,4)])
  next
    case False
    then have ax: "instant sa \<le> instant sx" by simp
    have i2: "insort_key (\<lambda>x. instant (fst x)) (sa, pmax ea eb) ((sx, ex) # S)
        = (sa, pmax ea eb) # (sx, ex) # S"
      using ax by simp
    have uu: "uniform off ((sa, pmax ea eb) # (sx, ex) # S)" using u tzu iu by simp
    have ux: "uniform off ((sx, ex) # S)" using u by simp
    have rhs: "free_slots_from whs whe mdm end_dt current ((sa, pmax ea eb) # (sx, ex) # S)
        = then_slots (gap_slots whs whe mdm end_dt current sa)
            (free_slots_from whs whe mdm end_dt (pmax current (pmax ea eb)) ((sx, ex) # S))"
      by (rule from_Cons [OF Cons.prems(1) assms uu])
    show ?thesis
    proof (cases "instant sb \<le> instant sx")
      case True
      have i1: "insort_key (\<lambda>x. instant (fst x)) (sa, ea)
               (insort_key (\<lambda>x. instant (fst x)) (sb, eb) ((sx, ex) # S))
          = (sa, ea) # (sb, eb) # (sx, ex) # S"
        using True Cons.prems(3) by simp
      have u1: "uniform off ((sa, ea) # (sb, eb) # (sx, ex) # S)" using u by simp
      have u2: "uniform off ((sb, eb) # (sx, ex) # S)" using u by simp
      have "free_slots_from whs whe mdm end_dt current ((sa, ea) # (sb, eb) # (sx, ex) # S)
          = then_slots (gap_slots whs whe mdm end_dt current sa)
              (free_slots_from whs whe mdm end_dt (pmax current ea) ((sb, eb) # (sx, ex) # S))"
        by (rule from_Cons [OF Cons.prems(1) assms u1])
      also have "\<dots> = then_slots (gap_slots whs whe mdm end_dt current sa)
              (free_slots_from whs whe mdm end_dt (pmax (pmax current ea) eb) ((sx, ex) # S))"
        using from_Cons_covered [OF awa assms u2, of whs whe mdm] Cons.prems(4) by simp
      also have "\<dots> = free_slots_from whs whe mdm end_dt current
                          ((sa, pmax ea eb) # (sx, ex) # S)"
        by (simp only: rhs pmax_assoc)
      finally show ?thesis by (simp only: x i1 i2)
    next
      case F2: False
      have i1: "insort_key (\<lambda>x. instant (fst x)) (sa, ea)
               (insort_key (\<lambda>x. instant (fst x)) (sb, eb) ((sx, ex) # S))
          = (sa, ea) # (sx, ex) # insort_key (\<lambda>x. instant (fst x)) (sb, eb) S"
        using F2 ax by simp
      have u1: "uniform off ((sa, ea) # (sx, ex) # insort_key (\<lambda>x. instant (fst x)) (sb, eb) S)"
        using u by (simp add: uniform_set set_insort_key)
      have u2: "uniform off ((sx, ex) # insort_key (\<lambda>x. instant (fst x)) (sb, eb) S)"
        using u by (simp add: uniform_set set_insort_key)
      have u3: "uniform off ((sb, eb) # S)" using u by simp
      have sx_le: "instant sx \<le> instant ea" using F2 Cons.prems(4) by simp
      have awax: "aware (pmax (pmax current ea) ex)"
        by (rule aware_pmax_uniform [OF awa u(8)])
      have "free_slots_from whs whe mdm end_dt current
              ((sa, ea) # (sx, ex) # insort_key (\<lambda>x. instant (fst x)) (sb, eb) S)
          = then_slots (gap_slots whs whe mdm end_dt current sa)
              (free_slots_from whs whe mdm end_dt (pmax current ea)
                 ((sx, ex) # insort_key (\<lambda>x. instant (fst x)) (sb, eb) S))"
        by (rule from_Cons [OF Cons.prems(1) assms u1])
      also have "\<dots> = then_slots (gap_slots whs whe mdm end_dt current sa)
              (free_slots_from whs whe mdm end_dt (pmax (pmax current ea) ex)
                 (insort_key (\<lambda>x. instant (fst x)) (sb, eb) S))"
        using from_Cons_covered [OF awa assms u2, of whs whe mdm] sx_le by simp
      also have "\<dots> = then_slots (gap_slots whs whe mdm end_dt current sa)
              (free_slots_from whs whe mdm end_dt (pmax (pmax (pmax current ea) ex) eb) S)"
        using from_insort_covered [OF assms awax u3, of whs whe mdm] Cons.prems(4) by simp
      also have "\<dots> = then_slots (gap_slots whs whe mdm end_dt current sa)
              (free_slots_from whs whe mdm end_dt (pmax (pmax current (pmax ea eb)) ex) S)"
        by (simp only: pmax_assoc pmax_sym [OF u(8,5)])
      also have "\<dots> = then_slots (gap_slots whs whe mdm end_dt current sa)
              (free_slots_from whs whe mdm end_dt (pmax current (pmax ea eb)) ((sx, ex) # S))"
        using from_Cons_covered [OF awu assms ux, of whs whe mdm] sx_le by simp
      also have "\<dots> = free_slots_from whs whe mdm end_dt current
                          ((sa, pmax ea eb) # (sx, ex) # S)"
        by (simp only: rhs)
      finally show ?thesis by (simp only: x i1 i2)
    qed
  qed
qed

lemma union_interval_commute:
  assumes "uniform off [a, b]"
  shows "union_interval a b = union_interval b a"
proof -
  obtain sa ea sb eb where ab: "a = (sa, ea)" "b = (sb, eb)" by (cases a, cases b)
  from assms have u: "tzinfo sa = Some off" "tzinfo ea = Some off"
    "tzinfo sb = Some off" "tzinfo eb = Some off" by (simp_all add: ab)
  have "pmin sa sb = pmin sb sa"
    using same_offset_eq [OF u(1,3)] by (auto simp: pmin_def)
  moreover have "pmax ea eb = pmax eb ea"
    using same_offset_eq [OF u(2,4)] by (auto simp: pmax_def)
  ultimately show ?thesis by (simp add: union_interval_def ab)
qed

lemma merge_ordered:
  assumes "aware start_dt" "aware end_dt" "uniform off busy"
    and "mset busy = mset (a # b # rest)" and "touching a b"
    and "mset busy' = mset (union_interval a b # rest)"
    and "instant (fst a) \<le> instant (fst b)"
  shows "free_slots_of whs whe mdm start_dt end_dt busy'
       = free_slots_of whs whe mdm start_dt end_dt busy"
proof -
  let ?k = "\<lambda>x. instant (fst x)"
  obtain sa ea sb eb where ab: "a = (sa, ea)" "b = (sb, eb)" by (cases a, cases b)
  have uab: "uniform off ((sa, ea) # (sb, eb) # rest)"
    using assms(3) uniform_mset [OF assms(4), of off] by (simp add: ab)
  then have u: "tzinfo sa = Some off" "tzinfo ea = Some off" "instant sa \<le> instant ea"
    "tzinfo sb = Some off" "tzinfo eb = Some off" "instant sb \<le> instant eb" "uniform off rest"
    by simp_all
  have le: "instant sa \<le> instant sb" "instant sb \<le> instant ea"
    using assms(5,7) by (simp_all add: touching_def ab)
  have un: "union_interval a b = (sa, pmax ea eb)"
    using le(1) by (simp add: union_interval_def ab pmin_def)
  have tzu: "tzinfo (pmax ea eb) = Some off" using u by (simp add: pmax_def)
  have uu: "uniform off ((sa, pmax ea eb) # rest)" using u tzu by simp
  have ub': "uniform off busy'"
    using uu uniform_mset [OF assms(6), of off] by (simp add: un)
  have us: "uniform off ((sa, ea) # (sb, eb) # sort_key ?k rest)"
    using u by (simp add: uniform_set)
  have 1: "free_slots_of whs whe mdm start_dt end_dt busy
      = free_slots_from whs whe mdm end_dt start_dt (sort_key ?k busy)"
    using uniform_intervals [OF assms(3)] by (simp add: free_slots_of_def sort_busy_intervals)
  have 2: "free_slots_of whs whe mdm start_dt end_dt busy'
      = free_slots_from whs whe mdm end_dt start_dt (sort_key ?k busy')"
    using uniform_intervals [OF ub'] by (simp add: free_slots_of_def sort_busy_intervals)
  have 3: "free_slots_from whs whe mdm end_dt start_dt (sort_key ?k busy)
      = free_slots_from whs whe mdm end_dt start_dt
          (insort_key ?k (sa, ea) (insort_key ?k (sb, eb) (sort_key ?k rest)))"
  proof (rule from_sorted_mset [OF assms(2) _ _ _ _ assms(1)])
    show "uniform off (sort_key ?k busy)" using assms(3) by (simp add: uniform_set)
  qed (use assms(4) in \<open>simp_all add: sorted_insort_key ab\<close>)
  have 4: "free_slots_from whs whe mdm end_dt start_dt (sort_key ?k busy')
      = free_slots_from whs whe mdm end_dt start_dt
          (insort_key ?k (sa, pmax ea eb) (sort_key ?k rest))"
  proof (rule from_sorted_mset [OF assms(2) _ _ _ _ assms(1)])
    show "uniform off (sort_key ?k busy')" using ub' by (simp add: uniform_set)
  qed (use assms(6) in \<open>simp_all add: sorted_insort_key un\<close>)
  from from_insort_merge [OF assms(2,1) us le, of whs whe mdm]
  show ?thesis by (simp only: 1 2 3 4)
qed

section \<open>Naive range bounds\<close>

text \<open>
  C3, as stated: a naive \<^verbatim>\<open>start_date\<close> or \<^verbatim>\<open>end_date\<close> is given the account timezone read
  from the provider's timezone setting. It fails: in \<open>example_env\<close> the account timezone is
  \<^verbatim>\<open>"UTC"\<close> and the machine's local offset is +08:00, and the naive bounds
  \<^verbatim>\<open>2026-03-02T09:00:00\<close> and \<^verbatim>\<open>2026-03-02T18:00:00\<close> come out with offset +08:00.
\<close>

theorem naive_bounds_not_account_timezone:
  "get_user_timezone example_env = ''UTC'' \<and>
   get_free_slots_bounds example_env ''2026-03-02T09:00:00'' ''2026-03-02T18:00:00''
     = Inr (mk_datetime 2026 3 2 9 0 (Some (8 * HOUR)),
            mk_datetime 2026 3 2 18 0 (Some (8 * HOUR)))"
  by code_simp

text \<open>
  C3, amended: a naive \<^verbatim>\<open>start_date\<close> is given the machine's local offset
  (\<^verbatim>\<open>datetime.now().astimezone().tzinfo\<close>) and a naive \<^verbatim>\<open>end_date\<close> the offset of
  \<^verbatim>\<open>start_dt\<close>. The account timezone is read from the provider's timezone setting, with
  \<^verbatim>\<open>"UTC"\<close> when the lookup raises, but whatever the setting answers the bounds are the same.
\<close>

theorem naive_bounds_local_offset:
  assumes "get_free_slots_bounds env start_date end_date = Inr (start_dt, end_dt)"
    and "parse_iso8601 env start_date = Inr start_parsed"
    and "parse_iso8601 env end_date = Inr end_parsed"
  shows "(tzinfo start_parsed = None \<longrightarrow> tzinfo start_dt = Some (local_offset env))
    \<and> (tzinfo end_parsed = None \<longrightarrow> tzinfo end_dt = tzinfo start_dt)
    \<and> get_free_slots_bounds (env\<lparr>settings_timezone := answer\<rparr>) start_date end_date
        = Inr (start_dt, end_dt)
    \<and> get_user_timezone (env\<lparr>settings_timezone := Inl e\<rparr>) = ''UTC''"
  using assms
  by (auto simp: get_free_slots_bounds_def parse_iso8601_def replace_tzinfo_if_naive_def
      get_user_timezone_def DEFAULT_TIMEZONE_def Let_def split: sum.splits)

theorem naive_bounds_local_offset_witness:
  "tzinfo (mk_datetime 2026 3 2 9 0 (Some (8 * HOUR))) = Some (local_offset example_env)
   \<and> tzinfo (mk_datetime 2026 3 2 18 0 (Some (8 * HOUR)))
       = tzinfo (mk_datetime 2026 3 2 9 0 (Some (8 * HOUR)))
   \<and> get_free_slots_bounds (example_env\<lparr>settings_timezone := Inr (Some ''Europe/Paris'')\<rparr>)
        ''2026-03-02T09:00:00'' ''2026-03-02T18:00:00''
       = Inr (mk_datetime 2026 3 2 9 0 (Some (8 * HOUR)),
              mk_datetime 2026 3 2 18 0 (Some (8 * HOUR)))
   \<and> get_user_timezone (example_env\<lparr>settings_timezone := Inl (HttpError 500 ''down'')\<rparr>)
       = ''UTC''"
proof -
  have b: "get_free_slots_bounds example_env ''2026-03-02T09:00:00'' ''2026-03-02T18:00:00''
     = Inr (mk_datetime 2026 3 2 9 0 (Some (8 * HOUR)),
            mk_datetime 2026 3 2 18 0 (Some (8 * HOUR)))"
    by code_simp
  have s: "parse_iso8601 example_env ''2026-03-02T09:00:00''
     = Inr (mk_datetime 2026 3 2 9 0 None)"
    by code_simp
  have e: "parse_iso8601 example_env ''2026-03-02T18:00:00''
     = Inr (mk_datetime 2026 3 2 18 0 None)"
    by code_simp
  have n: "tzinfo (mk_datetime 2026 3 2 9 0 None) = None"
    "tzinfo (mk_datetime 2026 3 2 18 0 None) = None"
    by (simp_all add: mk_datetime_def)
  from naive_bounds_local_offset [OF b s e, of "Inr (Some ''Europe/Paris'')" "HttpError 500 ''down''"] n
  show ?thesis by simp
qed

section \<open>Failures after the provider has answered\<close>

text \<open>
  C7: every failure inside \<^verbatim>\<open>get_free_slots\<close> reaches the caller as one of the error
  strings. The two \<^verbatim>\<open>try\<close> blocks do this for the lines they enclose; the loop that
  parses the busy list (lines 218 to 222) is outside both. With a busy interval whose
  start is \<^verbatim>\<open>"not-a-timestamp"\<close> the \<^verbatim>\<open>ValueError\<close> of \<^verbatim>\<open>fromisoformat\<close> leaves
  \<^verbatim>\<open>get_free_slots\<close>: the value is \<open>Inl\<close>, an exception, and no reply.
\<close>

theorem malformed_busy_timestamp_escapes:
  "get_free_slots bad_busy_env ''2026-03-02T09:00:00+00:00'' ''2026-03-02T18:00:00+00:00''
      30 9 18 ''primary''
   = Inl (ValueError ''Invalid isoformat string: not-a-timestamp'')"
  by code_simp

section \<open>Events in the past\<close>



section \<open>Order of the slots and exclusion of the busy intervals\<close>

lemma example_free_slots:
  "free_slots_of 9 18 30 example_start example_end example_busy = Inr example_slots"
  by code_simp

lemma example_intervals: "intervals example_busy"
  by code_simp

lemma example_bounds_aware: "aware example_start" "aware example_end"
  by (simp_all add: aware_def example_start_def example_end_def mk_datetime_def)

text \<open>
  C5: whatever the order of the busy intervals and however they overlap or touch, the
  slots come out, in the order in which they are appended and with no sort afterwards,
  strictly increasing by start instant and pairwise non-overlapping: a slot ends no later
  than every later slot starts. The busy intervals are intervals of the data model
  (aware ends, start not after end), the range bounds are aware as lines 189 to 192
  leave them, and the statement is about the list returned.
\<close>

theorem free_slots_increasing_disjoint:
  assumes "free_slots_of whs whe mdm start_dt end_dt busy = Inr slots"
    and "aware start_dt" and "aware end_dt" and "intervals busy"
  shows "sorted_wrt (\<lambda>a b. instant (fst a) < instant (fst b)
                           \<and> instant (snd a) \<le> instant (fst b)) slots"
proof -
  from assms(1,4)
  have "free_slots_from whs whe mdm end_dt start_dt (sort_key (\<lambda>x. instant (fst x)) busy)
          = Inr slots"
    by (simp add: free_slots_of_def sort_busy_intervals)
  from free_slots_from_in_order [OF this assms(2,3)] assms(4)
  have "in_order_within (instant start_dt) (instant end_dt) slots"
    by (simp add: intervals_sort_key)
  then show ?thesis by (rule in_order_within_sorted_wrt)
qed

theorem free_slots_increasing_disjoint_witness:
  "free_slots_of 9 18 30 example_start example_end example_busy = Inr example_slots
   \<and> intervals example_busy
   \<and> sorted_wrt (\<lambda>a b. instant (fst a) < instant (fst b)
                           \<and> instant (snd a) \<le> instant (fst b)) example_slots"
  using free_slots_increasing_disjoint
    [OF example_free_slots example_bounds_aware example_intervals]
    example_free_slots example_intervals
  by simp

text \<open>
  C2: no slot returned intersects a busy interval of the input: the slot ends no later
  than the busy interval starts, or starts no earlier than it ends (slots and busy
  intervals may touch at an end point, as in the scenario with a busy hour from 12:00 to
  13:00 and the slots 09:00 to 12:00 and 13:00 to 18:00). Same conditions on the input
  as for C5.
\<close>

theorem free_slots_avoid_busy:
  assumes "free_slots_of whs whe mdm start_dt end_dt busy = Inr slots"
    and "aware start_dt" and "aware end_dt" and "intervals busy"
    and "(s, e) \<in> set slots" and "(bs, be) \<in> set busy"
  shows "instant e \<le> instant bs \<or> instant be \<le> instant s"
proof -
  let ?L = "sort_key (\<lambda>x. instant (fst x)) busy"
  from assms(1,4)
  have f: "free_slots_from whs whe mdm end_dt start_dt ?L = Inr slots"
    by (simp add: free_slots_of_def sort_busy_intervals)
  have i: "intervals ?L" using assms(4) by (simp add: intervals_sort_key)
  have srt: "sorted (map (\<lambda>x. instant (fst x)) ?L)" by (rule sorted_sort_key)
  have m: "(bs, be) \<in> set ?L" using assms(6) by simp
  from free_slots_from_avoid [OF f assms(2,3) i srt assms(5) m] show ?thesis .
qed

theorem free_slots_avoid_busy_witness:
  "instant (mk_datetime 2026 3 2 15 0 (Some 0)) \<le> instant (mk_datetime 2026 3 2 15 0 (Some 0))
   \<or> instant (mk_datetime 2026 3 2 16 0 (Some 0)) \<le> instant (mk_datetime 2026 3 2 14 0 (Some 0))"
proof -
  have s: "(mk_datetime 2026 3 2 14 0 (Some 0), mk_datetime 2026 3 2 15 0 (Some 0))
             \<in> set example_slots"
    by (simp add: example_slots_def)
  have b: "(mk_datetime 2026 3 2 15 0 (Some 0), mk_datetime 2026 3 2 16 0 (Some 0))
             \<in> set example_busy"
    by (simp add: example_busy_def)
  from free_slots_avoid_busy
    [OF example_free_slots example_bounds_aware example_intervals s b]
  show ?thesis .
qed

section \<open>The clipping loop returns\<close>

text \<open>
  The loop written with no termination argument returns on every input, with the value
  of \<open>clip_loop\<close>: by induction along the passes of the loop, each of which raises, stops,
  or moves \<^verbatim>\<open>current\<close> to the next calendar day.
\<close>

lemma clip_while_eq_clip_loop:
  "clip_while whs whe mdm tz0 gap_end current = Some (clip_loop whs whe mdm tz0 gap_end current)"
proof (induction whs whe mdm tz0 gap_end current rule: clip_loop.induct)
  case (1 whs whe mdm tz0 gap_end current)
  show ?case
  proof (cases "dt_lt current gap_end")
    case (Inl e)
    then show ?thesis
      by (subst clip_while.simps, subst clip_loop.simps) simp
  next
    case (Inr go)
    show ?thesis
    proof (cases go)
      case False
      with Inr show ?thesis
        by (subst clip_while.simps, subst clip_loop.simps) simp
    next
      case True
      show ?thesis
      proof (cases "clip_body whs whe mdm tz0 gap_end current")
        case (Inl e)
        with Inr True show ?thesis
          by (subst clip_while.simps, subst clip_loop.simps) simp
      next
        case body: (Inr p)
        obtain ys nxt where p: "p = (ys, nxt)" by (cases p)
        have IH: "clip_while whs whe mdm tz0 gap_end nxt
                    = Some (clip_loop whs whe mdm tz0 gap_end nxt)"
          by (rule "1.IH" [OF Inr _ body p [symmetric]]) (simp add: True)
        show ?thesis
          by (subst clip_while.simps, subst clip_loop.simps)
             (simp add: Inr True body p IH)
      qed
    qed
  qed
qed

text \<open>
  C10: for a gap with \<^verbatim>\<open>gap_start <= gap_end\<close> and working hours in 0 to 23,
  \<^verbatim>\<open>clip_to_working_hours\<close> terminates: the loop returns a value (the one of the total
  function used in the rest of this theory), and every pass that does not raise leaves
  \<^verbatim>\<open>current\<close> on the next calendar day, so its date strictly increases.
\<close>

theorem clip_to_working_hours_terminates:
  assumes "dt_le gap_start gap_end = Inr True"
    and "0 \<le> whs" "whs \<le> 23" "0 \<le> whe" "whe \<le> 23"
  shows "clip_while whs whe mdm (tzinfo gap_start) gap_end gap_start
           = Some (clip_to_working_hours whs whe mdm gap_start gap_end)
     \<and> (\<forall>current yielded next_current.
           clip_body whs whe mdm (tzinfo gap_start) gap_end current = Inr (yielded, next_current)
           \<longrightarrow> date_ord next_current = date_ord current + 1)"
  using clip_body_next
  by (auto simp: clip_while_eq_clip_loop clip_to_working_hours_def)

theorem clip_to_working_hours_terminates_witness:
  "clip_while 9 18 30 (tzinfo example_start) example_end example_start
     = Some (Inr [(mk_datetime 2026 3 2 9 0 (Some 0), mk_datetime 2026 3 2 18 0 (Some 0)),
                  (mk_datetime 2026 3 3 9 0 (Some 0), mk_datetime 2026 3 3 11 0 (Some 0))])
   \<and> date_ord (mk_datetime 2026 3 3 9 0 (Some 0)) = date_ord example_start + 1"
proof -
  have le: "dt_le example_start example_end = Inr True"
    by code_simp
  have v: "clip_to_working_hours 9 18 30 example_start example_end
      = Inr [(mk_datetime 2026 3 2 9 0 (Some 0), mk_datetime 2026 3 2 18 0 (Some 0)),
             (mk_datetime 2026 3 3 9 0 (Some 0), mk_datetime 2026 3 3 11 0 (Some 0))]"
    by code_simp
  have body: "clip_body 9 18 30 (tzinfo example_start) example_end example_start
      = Inr ([(mk_datetime 2026 3 2 9 0 (Some 0), mk_datetime 2026 3 2 18 0 (Some 0))],
             mk_datetime 2026 3 3 9 0 (Some 0))"
    by code_simp
  from clip_to_working_hours_terminates [OF le, of 9 18 30] v body
  show ?thesis by simp
qed

section \<open>A range over two days\<close>

text \<open>
  C8: the range from 09:00 on one day to 11:00 on the next, both in the same offset, with
  no busy interval, working hours 9 to 18 and a minimum of 30 minutes, gives exactly two
  slots, in this order: 09:00 to 18:00 on the first day and 09:00 to 11:00 on the second.
  \<open>n\<close> is the ordinal of the first day; the second day is not the last day of year 9999.
\<close>

theorem two_day_range_two_slots:
  assumes "n + 2 \<le> MAXORD"
  shows "free_slots_of 9 18 30 (at_hour n 9 (Some off)) (at_hour (n + 1) 11 (Some off)) []
     = Inr [(at_hour n 9 (Some off), at_hour n 18 (Some off)),
            (at_hour (n + 1) 9 (Some off), at_hour (n + 1) 11 (Some off))]"
proof -
  have d: "date_ord (at_hour n 9 (Some off)) = n"
    "date_ord (at_hour (n + 1) 9 (Some off)) = n + 1"
    "date_ord (at_hour (2 + n) 9 (Some off)) = 2 + n"
    by (simp_all add: date_ord_at_hour)
  have 3: "clip_loop 9 18 30 (Some off) (at_hour (n + 1) 11 (Some off))
             (at_hour (2 + n) 9 (Some off)) = Inr []"
    by (subst clip_loop_aware) (simp_all add: instant_at_hour DAY_def HOUR_def)
  have 2: "clip_loop 9 18 30 (Some off) (at_hour (n + 1) 11 (Some off))
             (at_hour (n + 1) 9 (Some off))
     = Inr [(at_hour (n + 1) 9 (Some off), at_hour (n + 1) 11 (Some off))]"
    using assms
    by (subst clip_loop_aware)
       (simp_all add: d 3 day_slot_def pmax_def pmin_def instant_at_hour
          DAY_def HOUR_def SECOND_def)
  have 1: "clip_loop 9 18 30 (Some off) (at_hour (n + 1) 11 (Some off))
             (at_hour n 9 (Some off))
     = Inr [(at_hour n 9 (Some off), at_hour n 18 (Some off)),
            (at_hour (n + 1) 9 (Some off), at_hour (n + 1) 11 (Some off))]"
    using assms
    by (subst clip_loop_aware)
       (simp_all add: d 2 day_slot_def pmax_def pmin_def instant_at_hour
          DAY_def HOUR_def SECOND_def)
  show ?thesis
    by (simp add: free_slots_of_def sort_busy_def free_slots_from_Nil
        clip_to_working_hours_def 1 instant_at_hour DAY_def HOUR_def)
qed

theorem two_day_range_two_slots_witness:
  "ymd2ord 2026 3 2 + 2 \<le> MAXORD
   \<and> free_slots_of 9 18 30 (at_hour (ymd2ord 2026 3 2) 9 (Some 0))
        (at_hour (ymd2ord 2026 3 2 + 1) 11 (Some 0)) []
     = Inr [(at_hour (ymd2ord 2026 3 2) 9 (Some 0), at_hour (ymd2ord 2026 3 2) 18 (Some 0)),
            (at_hour (ymd2ord 2026 3 2 + 1) 9 (Some 0),
             at_hour (ymd2ord 2026 3 2 + 1) 11 (Some 0))]"
proof -
  have b: "ymd2ord 2026 3 2 + 2 \<le> MAXORD"
    by code_simp
  from two_day_range_two_slots [OF b, of 0] b show ?thesis by simp
qed

section \<open>Coverage with no busy interval\<close>

text \<open>
  C1, as stated: with no busy interval the slots add up to the duration of the range
  intersected with the daily working hours. It fails: from 17:45 to 18:30 with working
  hours 9 to 18 and a minimum of 30 minutes, the intersection lasts 15 minutes, and no
  slot is returned, since the only candidate is shorter than the minimum (line 238).
\<close>

theorem short_piece_not_covered:
  "free_slots_of 9 18 30 late_start late_end [] = Inr []
   \<and> total_duration [] \<noteq> working_time 9 18 late_start late_end"
  by code_simp

text \<open>
  C1, amended: with no busy interval, a range with start not after end, a positive
  minimum duration and valid working hours, the slots add up to the duration of the
  range intersected with the daily working hours, counting only the daily pieces that
  last at least the minimum duration; so to the whole intersection when no daily piece is
  shorter than that. Days are those of the offset of the range start, and the range ends
  before 9999-12-31 in that offset.
\<close>

theorem no_busy_coverage:
  assumes "tzinfo start_dt = Some off" and "aware end_dt"
    and "instant start_dt \<le> instant end_dt" and "0 < mdm"
    and "0 \<le> whs" "whs < whe" "whe \<le> 23"
    and "(instant end_dt + off) div DAY < MAXORD"
  shows "\<exists>slots. free_slots_of whs whe mdm start_dt end_dt [] = Inr slots
     \<and> total_duration slots = bookable_time whs whe mdm start_dt end_dt
     \<and> ((\<forall>n \<in> range_days start_dt end_dt.
            window_overlap whs whe off (instant start_dt) (instant end_dt) n = 0
            \<or> mdm * 60 * SECOND
                 \<le> window_overlap whs whe off (instant start_dt) (instant end_dt) n)
          \<longrightarrow> total_duration slots = working_time whs whe start_dt end_dt)"
proof -
  have aw: "aware start_dt" using assms(1) by (simp add: aware_def)
  have uo: "utcoffset start_dt = off" using assms(1) by (simp add: utcoffset_def)
  have hrs: "0 \<le> whs" "whs \<le> 23" "0 \<le> whe" "whe \<le> 23" using assms(5-7) by simp_all
  from clip_loop_total [OF assms(1,2) hrs assms(8), of mdm]
  obtain slots where s: "clip_loop whs whe mdm (Some off) end_dt start_dt = Inr slots"
    by blast
  have f: "free_slots_of whs whe mdm start_dt end_dt [] = Inr slots"
    using s assms(1) by (simp add: free_slots_of_Nil [OF aw assms(2)] clip_to_working_hours_def)
  have t: "total_duration slots = bookable_time whs whe mdm start_dt end_dt"
    using clip_loop_coverage [OF s assms(1,2)]
    by (simp add: bookable_time_def range_days_def uo)
  have "bookable_time whs whe mdm start_dt end_dt = working_time whs whe start_dt end_dt"
    if "\<forall>n \<in> range_days start_dt end_dt.
            window_overlap whs whe off (instant start_dt) (instant end_dt) n = 0
            \<or> mdm * 60 * SECOND
                 \<le> window_overlap whs whe off (instant start_dt) (instant end_dt) n"
    unfolding bookable_time_def working_time_def uo
    by (rule sum.cong) (use that in \<open>auto simp: long_enough_def\<close>)
  with f t show ?thesis by auto
qed

theorem no_busy_coverage_witness:
  "total_duration [(mk_datetime 2026 3 2 9 0 (Some 0), mk_datetime 2026 3 2 18 0 (Some 0)),
                   (mk_datetime 2026 3 3 9 0 (Some 0), mk_datetime 2026 3 3 11 0 (Some 0))]
     = bookable_time 9 18 30 example_start example_end
   \<and> bookable_time 9 18 30 example_start example_end = 11 * HOUR"
proof -
  have tz: "tzinfo example_start = Some 0" "aware example_end"
    by (simp_all add: example_start_def example_end_def mk_datetime_def aware_def)
  have le: "instant example_start \<le> instant example_end"
    by code_simp
  have bound: "(instant example_end + 0) div DAY < MAXORD"
    by code_simp
  have ev: "free_slots_of 9 18 30 example_start example_end []
     = Inr [(mk_datetime 2026 3 2 9 0 (Some 0), mk_datetime 2026 3 2 18 0 (Some 0)),
            (mk_datetime 2026 3 3 9 0 (Some 0), mk_datetime 2026 3 3 11 0 (Some 0))]"
    by code_simp
  have bt: "bookable_time 9 18 30 example_start example_end = 11 * HOUR"
    by code_simp
  from no_busy_coverage [OF tz le _ _ _ _ bound, of 30 9 18] ev bt
  show ?thesis by auto
qed

section \<open>Malformed queries\<close>

text \<open>
  C4, as stated: a call with an inverted range, a non-positive minimum duration or
  inverted working hours is rejected with a \<^verbatim>\<open>PreconditionError\<close> before the slot
  computation runs. It fails: the module has no such error and no check of these
  parameters. With the range 18:00 to 09:00 the reply is the ordinary
  \<^verbatim>\<open>"No free slots found in the given range."\<close>, and with a minimum duration of 0 the
  slot computation runs and its slot is returned.
\<close>

theorem malformed_query_not_rejected:
  "get_free_slots example_env ''2026-03-02T18:00:00+00:00'' ''2026-03-02T09:00:00+00:00''
      30 9 18 ''primary'' = Inr No_free_slots
   \<and> get_free_slots example_env ''2026-03-02T09:00:00+00:00'' ''2026-03-02T18:00:00+00:00''
      0 9 18 ''primary''
     = Inr (Free_slots 0 9 18
             [(mk_datetime 2026 3 2 9 0 (Some 0), mk_datetime 2026 3 2 18 0 (Some 0))])"
  by code_simp

text \<open>
  C4, amended: nothing in the slot computation rejects a query. Whatever the order of
  the range bounds, the sign of the minimum duration and the order of the two working
  hours (both in 0 to 23), it returns a list of slots, which is empty when the range or
  the working hours are inverted or empty; in particular on well-formed input no error
  originates inside it. The instants carry offsets strictly between minus and plus 24
  hours, the busy intervals have their start not after their end, and the range ends at
  least one day before the end of year 9999.
\<close>

theorem slot_computation_total:
  assumes "offset_ok start_dt" and "offset_ok end_dt" and "busy_ok busy"
    and "0 \<le> whs" "whs \<le> 23" "0 \<le> whe" "whe \<le> 23"
    and "instant end_dt + DAY \<le> MAXORD * DAY"
  shows "\<exists>slots. free_slots_of whs whe mdm start_dt end_dt busy = Inr slots
           \<and> (instant end_dt \<le> instant start_dt \<or> whe \<le> whs \<longrightarrow> slots = [])"
proof -
  let ?L = "sort_key (\<lambda>x. instant (fst x)) busy"
  have eq: "free_slots_of whs whe mdm start_dt end_dt busy
      = free_slots_from whs whe mdm end_dt start_dt ?L"
    using busy_ok_intervals [OF assms(3)] by (simp add: free_slots_of_def sort_busy_intervals)
  have ok: "busy_ok ?L" using assms(3) by (simp add: busy_ok_sort_key)
  have aw: "aware start_dt" "aware end_dt" using assms(1,2) by (simp_all add: offset_ok_aware)
  from free_slots_from_total [OF assms(1) aw(2) ok assms(4-8), of mdm]
  obtain slots where s: "free_slots_from whs whe mdm end_dt start_dt ?L = Inr slots"
    "whe \<le> whs \<longrightarrow> slots = []" by blast
  have "instant end_dt \<le> instant start_dt \<longrightarrow> slots = []"
    using free_slots_from_done
      [OF aw intervals_all_aware [OF busy_ok_intervals [OF ok]], of whs whe mdm]
      s(1) by auto
  with s eq show ?thesis by auto
qed

theorem slot_computation_total_witness:
  "free_slots_of 9 18 (- 5) example_end example_start example_busy = Inr []"
proof -
  have o: "offset_ok example_end" "offset_ok example_start"
    by code_simp+
  have b: "busy_ok example_busy"
    by code_simp
  have bound: "instant example_start + DAY \<le> MAXORD * DAY"
    by code_simp
  have inv: "instant example_start \<le> instant example_end"
    by code_simp
  from slot_computation_total [OF o b _ _ _ _ bound, of 9 18 "- 5"] inv
  show ?thesis by auto
qed

section \<open>Merging two busy intervals\<close>

text \<open>
  C6, as stated: for every query, replacing two overlapping or adjacent busy intervals
  with their union gives an identical result. It fails when the busy instants carry
  different offsets: after a busy interval the sweep continues from that interval's end
  (line 255), and the clipper reads the working hours in the offset of the datetime it
  starts from (lines 230 to 245). The intervals 11:00 UTC to 20:00+08:00 and 10:00 UTC
  to 12:00 UTC end at the same instant; on the two of them the sweep continues from
  12:00 UTC and returns 09:00 to 10:00 and 12:00 to 18:00, on their union 10:00 UTC to
  20:00+08:00 it continues from 20:00+08:00, past the working hours of that day in
  +08:00, and returns 09:00 to 10:00 only.
\<close>

theorem merge_mixed_offsets_differs:
  "touching mixed_a mixed_b
   \<and> union_interval mixed_a mixed_b
       = (mk_datetime 2026 3 2 10 0 (Some 0), mk_datetime 2026 3 2 20 0 (Some (8 * HOUR)))
   \<and> free_slots_of 9 18 30 day_start day_end [mixed_a, mixed_b]
       = Inr [(mk_datetime 2026 3 2 9 0 (Some 0), mk_datetime 2026 3 2 10 0 (Some 0)),
              (mk_datetime 2026 3 2 12 0 (Some 0), mk_datetime 2026 3 2 18 0 (Some 0))]
   \<and> free_slots_of 9 18 30 day_start day_end [union_interval mixed_a mixed_b]
       = Inr [(mk_datetime 2026 3 2 9 0 (Some 0), mk_datetime 2026 3 2 10 0 (Some 0))]"
  by code_simp

text \<open>
  C6, amended: for every query and every list of busy intervals whose instants all carry
  one offset, replacing two overlapping or adjacent intervals, wherever they stand in the
  list, with their union, wherever it is put, gives an identical result: the same slots,
  or the same exception.
\<close>

theorem merge_busy_intervals:
  assumes "aware start_dt" "aware end_dt" "uniform off busy"
    and "mset busy = mset (a # b # rest)" and "touching a b"
    and "mset busy' = mset (union_interval a b # rest)"
  shows "free_slots_of whs whe mdm start_dt end_dt busy'
       = free_slots_of whs whe mdm start_dt end_dt busy"
proof (cases "instant (fst a) \<le> instant (fst b)")
  case True
  from merge_ordered [OF assms True] show ?thesis .
next
  case False
  have "uniform off (a # b # rest)" using assms(3) uniform_mset [OF assms(4), of off] by simp
  then have "uniform off [a, b]" by (simp add: uniform_set)
  then have c: "union_interval a b = union_interval b a" by (rule union_interval_commute)
  have m: "mset busy = mset (b # a # rest)" using assms(4) by simp
  have t: "touching b a" using assms(5) by (auto simp: touching_def)
  have m': "mset busy' = mset (union_interval b a # rest)" using assms(6) c by simp
  from merge_ordered [OF assms(1-3) m t m'] False show ?thesis by simp
qed

theorem merge_busy_intervals_witness:
  "free_slots_of 9 18 30 example_start example_end
     [(mk_datetime 2026 3 2 15 0 (Some 0), mk_datetime 2026 3 2 16 0 (Some 0)),
      (mk_datetime 2026 3 2 12 0 (Some 0), mk_datetime 2026 3 2 14 0 (Some 0))]
   = Inr example_slots"
proof -
  let ?a = "(mk_datetime 2026 3 2 12 0 (Some 0), mk_datetime 2026 3 2 13 0 (Some 0))"
  let ?b = "(mk_datetime 2026 3 2 12 30 (Some 0), mk_datetime 2026 3 2 14 0 (Some 0))"
  let ?c = "(mk_datetime 2026 3 2 15 0 (Some 0), mk_datetime 2026 3 2 16 0 (Some 0))"
  have u: "uniform 0 example_busy"
    by code_simp
  have m: "mset example_busy = mset (?a # ?b # [?c])"
    by (simp add: example_busy_def)
  have t: "touching ?a ?b"
    by code_simp
  have un: "union_interval ?a ?b
      = (mk_datetime 2026 3 2 12 0 (Some 0), mk_datetime 2026 3 2 14 0 (Some 0))"
    by code_simp
  have m': "mset [?c, (mk_datetime 2026 3 2 12 0 (Some 0), mk_datetime 2026 3 2 14 0 (Some 0))]
      = mset (union_interval ?a ?b # [?c])"
    by (simp add: un)
  from merge_busy_intervals [OF example_bounds_aware u m t m', of 9 18 30] example_free_slots
  show ?thesis by simp
qed

end
